theory Spec2Isabelle
  imports Complex_Main "HOL-Library.AList"
begin

section \<open>Python values used by the retrieval engine\<close>

text \<open>
  The repository is Python. Strings are modelled as \<open>string\<close> restricted to ASCII
  (the corpus and the queries of the repository are ASCII; Python's \<open>\w\<close>, \<open>\s\<close> and
  \<open>str.lower\<close> agree with the definitions below on every ASCII character). A \<open>dict\<close>
  is an association list in insertion order, read with \<open>map_of\<close> and written with
  \<open>AList.update\<close> (an existing key keeps its place, a new key goes last, as in
  Python). A Python \<open>set\<close> is a HOL set. Python floats are modelled as reals, with
  the range of the doubles where the ranker squares and multiplies them.
  Every operation of the source that can raise is a branch of the model that returns
  \<open>Inl\<close> of the exception.
\<close>

datatype py_error = IndexError | KeyError | ValueError | ZeroDivisionError | OverflowError

definition bind :: "py_error + 'a \<Rightarrow> ('a \<Rightarrow> py_error + 'b) \<Rightarrow> py_error + 'b" where
  "bind m f = (case m of Inl e \<Rightarrow> Inl e | Inr x \<Rightarrow> f x)"

text \<open>\<open>d.get(k, dflt)\<close>.\<close>

definition dict_get :: "('k \<times> 'v) list \<Rightarrow> 'k \<Rightarrow> 'v \<Rightarrow> 'v" where
  "dict_get d k dflt = (case map_of d k of None \<Rightarrow> dflt | Some v \<Rightarrow> v)"

text \<open>\<open>list.pop()\<close> on a stack kept with its top at the head: it raises on the empty list.\<close>

fun py_pop :: "'a list \<Rightarrow> py_error + ('a \<times> 'a list)" where
  "py_pop [] = Inl IndexError"
| "py_pop (x # xs) = Inr (x, xs)"

text \<open>\<open>xs[:k]\<close> for an integer \<open>k\<close>: a negative \<open>k\<close> counts from the end.\<close>

definition py_slice_to :: "'a list \<Rightarrow> int \<Rightarrow> 'a list" where
  "py_slice_to xs k = (if 0 \<le> k then take (nat k) xs else take (length xs - nat (- k)) xs)"

subsection \<open>Characters and strings\<close>

definition is_digit :: "char \<Rightarrow> bool" where
  "is_digit c = (let n = (of_char c :: nat) in 48 \<le> n \<and> n \<le> 57)"

definition is_upper :: "char \<Rightarrow> bool" where
  "is_upper c = (let n = (of_char c :: nat) in 65 \<le> n \<and> n \<le> 90)"

definition is_lower :: "char \<Rightarrow> bool" where
  "is_lower c = (let n = (of_char c :: nat) in 97 \<le> n \<and> n \<le> 122)"

text \<open>\<open>\w\<close> on ASCII: letters, digits and the underscore.\<close>

definition is_word :: "char \<Rightarrow> bool" where
  "is_word c = (is_digit c \<or> is_upper c \<or> is_lower c \<or> c = CHR ''_'')"

text \<open>\<open>\s\<close> and \<open>str.isspace\<close> on ASCII: codes 9 to 13, 28 to 31 and the space.\<close>

definition is_space :: "char \<Rightarrow> bool" where
  "is_space c = (let n = (of_char c :: nat) in (9 \<le> n \<and> n \<le> 13) \<or> (28 \<le> n \<and> n \<le> 32))"

definition chr_lower :: "char \<Rightarrow> char" where
  "chr_lower c = (if is_upper c then char_of (of_char c + (32 :: nat)) else c)"

definition chr_upper :: "char \<Rightarrow> char" where
  "chr_upper c = (if is_lower c then char_of (of_char c - (32 :: nat)) else c)"

definition str_lower :: "string \<Rightarrow> string" where
  "str_lower s = map chr_lower s"

definition str_upper :: "string \<Rightarrow> string" where
  "str_upper s = map chr_upper s"

definition str_strip :: "string \<Rightarrow> string" where
  "str_strip s = rev (dropWhile is_space (rev (dropWhile is_space s)))"

text \<open>
  The maximal runs of characters satisfying \<open>p\<close>, left to right; \<open>acc\<close> is the run
  being read, reversed.
\<close>

fun runs :: "(char \<Rightarrow> bool) \<Rightarrow> string \<Rightarrow> string \<Rightarrow> string list" where
  "runs p acc [] = (if acc = [] then [] else [rev acc])"
| "runs p acc (c # cs) =
     (if p c then runs p (c # acc) cs
      else (if acc = [] then [] else [rev acc]) @ runs p [] cs)"

text \<open>\<open>s.split()\<close>: the maximal runs of characters that are not white space.\<close>

definition str_split :: "string \<Rightarrow> string list" where
  "str_split s = runs (\<lambda>c. \<not> is_space c) [] s"

text \<open>\<open>" ".join(xs)\<close>.\<close>

fun join_space :: "string list \<Rightarrow> string" where
  "join_space [] = []"
| "join_space [x] = x"
| "join_space (x # y # ys) = x @ CHR '' '' # join_space (y # ys)"

section \<open>Boolean retrieval (boolean\_ir.py)\<close>

subsection \<open>The inverted index\<close>

text \<open>
  \<open>build_inverted_index\<close>: for every document and every distinct token of it, the
  document is added to the token's posting set. The source iterates over
  \<open>set(toks)\<close>, whose order Python leaves open; the model takes the order of
  \<open>remdups\<close>. The order only decides where a new key is placed.
\<close>

definition index_doc :: "'d \<Rightarrow> string list \<Rightarrow> (string \<times> 'd set) list \<Rightarrow> (string \<times> 'd set) list" where
  "index_doc doc toks inverted =
     fold (\<lambda>t inv. AList.update t (insert doc (dict_get inv t {})) inv) (remdups toks) inverted"

definition build_inverted_index :: "('d \<times> string list) list \<Rightarrow> (string \<times> 'd set) list" where
  "build_inverted_index docs = fold (\<lambda>(doc, toks) inv. index_doc doc toks inv) docs []"

subsection \<open>Tokenising the query\<close>

text \<open>
  \<open>re.findall(r'\bnot\b|\band\b|\bor\b|[\w-]+', q)\<close>. A match can only start at the
  beginning of a maximal run of word characters and hyphens, or right after a keyword
  matched at the beginning of such a run. At the beginning of a run the keyword
  alternatives come first: \<open>\bnot\b\<close> matches when the run starts with \<open>not\<close> and the
  next character is not a word character, that is the run ends there or goes on with
  a hyphen. The rest of the run then starts with a hyphen, where no keyword matches,
  and \<open>[\w-]+\<close> takes all of it. Otherwise \<open>[\w-]+\<close> takes the whole run.
\<close>

definition is_term_char :: "char \<Rightarrow> bool" where
  "is_term_char c = (is_word c \<or> c = CHR ''-'')"

definition kw_split :: "string \<Rightarrow> string \<Rightarrow> string option" where
  "kw_split kw run =
     (if take (length kw) run = kw \<and>
         (case drop (length kw) run of [] \<Rightarrow> True | c # _ \<Rightarrow> \<not> is_word c)
      then Some (drop (length kw) run) else None)"

definition emit :: "string \<Rightarrow> string list" where
  "emit run =
     (case kw_split ''not'' run of
        Some r \<Rightarrow> ''not'' # (if r = [] then [] else [r])
      | None \<Rightarrow>
     (case kw_split ''and'' run of
        Some r \<Rightarrow> ''and'' # (if r = [] then [] else [r])
      | None \<Rightarrow>
     (case kw_split ''or'' run of
        Some r \<Rightarrow> ''or'' # (if r = [] then [] else [r])
      | None \<Rightarrow> [run])))"

definition re_findall :: "string \<Rightarrow> string list" where
  "re_findall q = concat (map emit (runs is_term_char [] q))"

text \<open>
  \<open>q = query.lower().strip()\<close>, the regular expression, and the keywords put in
  upper case.
\<close>

definition tokenize :: "string \<Rightarrow> string list" where
  "tokenize query =
     map (\<lambda>t. if t \<in> {''and'', ''or'', ''not''} then str_upper t else t)
       (re_findall (str_strip (str_lower query)))"

subsection \<open>Infix to postfix\<close>

definition is_op :: "string \<Rightarrow> bool" where
  "is_op tok = (tok \<in> {''AND'', ''OR'', ''NOT''})"

text \<open>\<open>prec.get(tok, 0)\<close> for \<open>prec = {"NOT": 3, "AND": 2, "OR": 1}\<close>.\<close>

definition prec :: "string \<Rightarrow> nat" where
  "prec tok = (if tok = ''NOT'' then 3 else if tok = ''AND'' then 2 else if tok = ''OR'' then 1 else 0)"

text \<open>
  \<open>while stack and prec.get(stack[-1], 0) >= prec[tok]: output.append(stack.pop())\<close>.
  The operator stack has its top at the head.
\<close>

fun pop_ops :: "string \<Rightarrow> string list \<Rightarrow> string list \<Rightarrow> string list \<times> string list" where
  "pop_ops tok output [] = (output, [])"
| "pop_ops tok output (s # stack) =
     (if prec tok \<le> prec s then pop_ops tok (output @ [s]) stack else (output, s # stack))"

fun to_postfix :: "string list \<Rightarrow> string list \<Rightarrow> string list \<Rightarrow> string list" where
  "to_postfix [] output stack = output @ stack"
| "to_postfix (tok # toks) output stack =
     (if is_op tok
      then (case pop_ops tok output stack of (output', stack') \<Rightarrow> to_postfix toks output' (tok # stack'))
      else to_postfix toks (output @ [tok]) stack)"

subsection \<open>Evaluating the postfix form\<close>

text \<open>\<open>set().union(*inverted_index.values()) if inverted_index else set()\<close>.\<close>

definition all_docs :: "(string \<times> 'd set) list \<Rightarrow> 'd set" where
  "all_docs inverted_index = (if inverted_index = [] then {} else \<Union> (set (map snd inverted_index)))"

text \<open>One round of the evaluation loop; the value stack has its top at the head.\<close>

definition eval_tok :: "(string \<times> 'd set) list \<Rightarrow> string \<Rightarrow> 'd set list \<Rightarrow> py_error + 'd set list" where
  "eval_tok inverted_index tok eval_stack =
     (if tok = ''NOT'' then
        (let st = (if eval_stack = [] then [all_docs inverted_index] else eval_stack) in
         bind (py_pop st) (\<lambda>(A, st'). Inr ((all_docs inverted_index - A) # st')))
      else if tok = ''AND'' then
        (if 2 \<le> length eval_stack then
           bind (py_pop eval_stack) (\<lambda>(B, st').
           bind (py_pop st') (\<lambda>(A, st''). Inr ((A \<inter> B) # st'')))
         else Inr eval_stack)
      else if tok = ''OR'' then
        (if 2 \<le> length eval_stack then
           bind (py_pop eval_stack) (\<lambda>(B, st').
           bind (py_pop st') (\<lambda>(A, st''). Inr ((A \<union> B) # st'')))
         else Inr eval_stack)
      else Inr (dict_get inverted_index tok {} # eval_stack))"

fun eval_postfix :: "(string \<times> 'd set) list \<Rightarrow> string list \<Rightarrow> 'd set list \<Rightarrow> py_error + 'd set list" where
  "eval_postfix inverted_index [] eval_stack = Inr eval_stack"
| "eval_postfix inverted_index (tok # output) eval_stack =
     bind (eval_tok inverted_index tok eval_stack) (eval_postfix inverted_index output)"

text \<open>\<open>return eval_stack[-1] if eval_stack else set()\<close>.\<close>

definition stack_top :: "'d set list \<Rightarrow> 'd set" where
  "stack_top eval_stack = (case eval_stack of [] \<Rightarrow> {} | A # _ \<Rightarrow> A)"

definition eval_boolean :: "string \<Rightarrow> (string \<times> 'd set) list \<Rightarrow> py_error + 'd set" where
  "eval_boolean query inverted_index =
     bind (eval_postfix inverted_index (to_postfix (tokenize query) [] []) [])
       (\<lambda>eval_stack. Inr (stack_top eval_stack))"

section \<open>Vector space model (search\_engine.py)\<close>

subsection \<open>Arithmetic that can raise\<close>

text \<open>
  A float is modelled by the real number it stands for and an operation by its exact
  real result: the rounding to 53 bits is left out, and so are inputs that are
  infinite or not a number. What stays is the domain of each operation: \<open>a / b\<close>
  raises for \<open>b = 0\<close>, \<open>math.log\<close> for an argument that is not positive,
  \<open>math.sqrt\<close> for a negative one.
\<close>

definition py_div :: "real \<Rightarrow> real \<Rightarrow> py_error + real" where
  "py_div a b = (if b = 0 then Inl ZeroDivisionError else Inr (a / b))"

definition py_log :: "real \<Rightarrow> py_error + real" where
  "py_log x = (if x \<le> 0 then Inl ValueError else Inr (ln x))"

definition py_sqrt :: "real \<Rightarrow> py_error + real" where
  "py_sqrt x = (if x < 0 then Inl ValueError else Inr (sqrt x))"

text \<open>
  The ranker squares and multiplies weights, so there the range of the doubles is
  kept as well. A result of magnitude at most \<open>2^-1075\<close> is the float 0.0 (underflow,
  with no exception). A result of magnitude at least \<open>2^1024 - 2^970\<close> is infinite:
  \<open>w**2\<close> reports it as OverflowError, while a sum or product goes on with the infinite
  value.
\<close>

definition float_tiny :: real where
  "float_tiny = 1 / 2 ^ 1075"

definition float_huge :: real where
  "float_huge = 2 ^ 1024 - 2 ^ 970"

text \<open>\<open>x\<close> as a float result that may have underflowed.\<close>

definition fl_flush :: "real \<Rightarrow> real" where
  "fl_flush x = (if \<bar>x\<bar> \<le> float_tiny then 0 else x)"

text \<open>\<open>a * b\<close> on floats, for a product that is finite.\<close>

definition fl_mul :: "real \<Rightarrow> real \<Rightarrow> real" where
  "fl_mul a b = fl_flush (a * b)"

text \<open>\<open>w**2\<close> on a float.\<close>

definition py_sq :: "real \<Rightarrow> py_error + real" where
  "py_sq w = (if float_huge \<le> w\<^sup>2 then Inl OverflowError else Inr (fl_flush (w\<^sup>2)))"

text \<open>A comprehension whose body can raise: the first exception ends it.\<close>

fun mapM :: "('a \<Rightarrow> py_error + 'b) \<Rightarrow> 'a list \<Rightarrow> py_error + 'b list" where
  "mapM f [] = Inr []"
| "mapM f (x # xs) = bind (f x) (\<lambda>y. bind (mapM f xs) (\<lambda>ys. Inr (y # ys)))"

text \<open>
  \<open>round(x, 2)\<close> on the real value: to the nearest multiple of 1/100, a tie going to
  the even one.
\<close>

definition py_round2 :: "real \<Rightarrow> real" where
  "py_round2 x =
     (let y = x * 100; f = \<lfloor>y\<rfloor>; d = y - of_int f
      in of_int (if d < 1 / 2 then f else if 1 / 2 < d then f + 1
                 else if even f then f else f + 1) / 100)"

subsection \<open>Preprocessing and term statistics\<close>

text \<open>\<open>c[x] += 1\<close> on a \<open>Counter\<close>: a missing key counts 0.\<close>

definition counter_incr :: "'a \<Rightarrow> ('a \<times> nat) list \<Rightarrow> ('a \<times> nat) list" where
  "counter_incr x c = AList.update x (dict_get c x 0 + 1) c"

text \<open>\<open>Counter(xs)\<close>: the number of occurrences of each element, keys in order of first occurrence.\<close>

definition counter :: "'a list \<Rightarrow> ('a \<times> nat) list" where
  "counter xs = fold counter_incr xs []"

text \<open>
  \<open>preprocess\<close>: lower case, every character outside \<open>[a-z0-9\s]\<close> replaced by a space,
  split at white space, stop words removed, every word stemmed. The stemmer and the
  stop word list come from the NLTK library and are parameters here.
\<close>

definition preprocess :: "(string \<Rightarrow> string) \<Rightarrow> string set \<Rightarrow> string \<Rightarrow> string list" where
  "preprocess stem stopwords text =
     (let text1 = str_lower text;
          text2 = map (\<lambda>c. if is_lower c \<or> is_digit c \<or> is_space c then c else CHR '' '') text1
      in map stem (filter (\<lambda>w. w \<notin> stopwords) (str_split text2)))"

text \<open>
  The dictionary \<open>build_vsm\<close> returns, with its keys \<open>"tf"\<close>, \<open>"df"\<close>, \<open>"idf"\<close> and
  \<open>"docs"\<close> as fields. The collection maps a document name to its token list (what
  \<open>load_docs\<close> produces), so \<open>isinstance(text, list)\<close> holds.
\<close>

record vsm_model =
  vsm_tf :: "(string \<times> (string \<times> nat) list) list"
  vsm_df :: "(string \<times> nat) list"
  vsm_idf :: "(string \<times> real) list"
  vsm_docs :: "(string \<times> string list) list"

text \<open>The tokens \<open>build_vsm\<close> computes for a document.\<close>

definition doc_tokens :: "(string \<Rightarrow> string) \<Rightarrow> string set \<Rightarrow> string list \<Rightarrow> string list" where
  "doc_tokens stem stopwords text = preprocess stem stopwords (join_space text)"

text \<open>\<open>for term in set(tokens): df[term] += 1\<close>.\<close>

definition df_add :: "string list \<Rightarrow> (string \<times> nat) list \<Rightarrow> (string \<times> nat) list" where
  "df_add tokens df = fold counter_incr (remdups tokens) df"

definition build_tf :: "(string \<Rightarrow> string) \<Rightarrow> string set \<Rightarrow> (string \<times> string list) list
    \<Rightarrow> (string \<times> (string \<times> nat) list) list" where
  "build_tf stem stopwords docs =
     fold (\<lambda>(doc_id, text) tf. AList.update doc_id (counter (doc_tokens stem stopwords text)) tf) docs []"

definition build_df :: "(string \<Rightarrow> string) \<Rightarrow> string set \<Rightarrow> (string \<times> string list) list
    \<Rightarrow> (string \<times> nat) list" where
  "build_df stem stopwords docs =
     fold (\<lambda>(doc_id, text) df. df_add (doc_tokens stem stopwords text) df) docs []"

text \<open>\<open>math.log((N + 1) / (df[t] + 1)) + 1\<close>.\<close>

definition idf_value :: "nat \<Rightarrow> nat \<Rightarrow> py_error + real" where
  "idf_value N n = bind (py_div (real N + 1) (real n + 1)) (\<lambda>q. bind (py_log q) (\<lambda>l. Inr (l + 1)))"

definition build_vsm :: "(string \<Rightarrow> string) \<Rightarrow> string set \<Rightarrow> (string \<times> string list) list
    \<Rightarrow> py_error + vsm_model" where
  "build_vsm stem stopwords docs =
     (let tf = build_tf stem stopwords docs;
          df = build_df stem stopwords docs;
          N = length docs
      in bind (mapM (\<lambda>(t, n). bind (idf_value N n) (\<lambda>v. Inr (t, v))) df) (\<lambda>idf.
         Inr \<lparr>vsm_tf = tf, vsm_df = df, vsm_idf = idf, vsm_docs = docs\<rparr>))"

subsection \<open>Weighting\<close>

definition weight_tfidf_standard :: "vsm_model \<Rightarrow> (string \<times> (string \<times> real) list) list" where
  "weight_tfidf_standard vsm =
     map (\<lambda>(doc, terms). (doc, map (\<lambda>(term, freq). (term, real freq * dict_get (vsm_idf vsm) term 0)) terms))
       (vsm_tf vsm)"

definition weight_tfidf_sublinear :: "vsm_model \<Rightarrow> py_error + (string \<times> (string \<times> real) list) list" where
  "weight_tfidf_sublinear vsm =
     mapM (\<lambda>(doc, terms).
        bind (mapM (\<lambda>(term, freq).
                bind (py_log (real freq)) (\<lambda>l. Inr (term, (1 + l) * dict_get (vsm_idf vsm) term 0))) terms)
          (\<lambda>ws. Inr (doc, ws)))
       (vsm_tf vsm)"

subsection \<open>Ranking\<close>

text \<open>One entry of the query vector \<open>q_vec\<close>.\<close>

definition q_weight :: "string \<Rightarrow> (string \<times> real) list \<Rightarrow> string \<times> nat \<Rightarrow> py_error + (string \<times> real)" where
  "q_weight scheme idf = (\<lambda>(t, f).
     if scheme = ''sublinear''
     then bind (py_log (real f)) (\<lambda>l. Inr (t, fl_mul (1 + l) (dict_get idf t 0)))
     else Inr (t, fl_mul (real f) (dict_get idf t 0)))"

text \<open>\<open>weights[t]\<close>: a missing key raises.\<close>

definition dict_item :: "('k \<times> 'v) list \<Rightarrow> 'k \<Rightarrow> py_error + 'v" where
  "dict_item d k = (case map_of d k of None \<Rightarrow> Inl KeyError | Some v \<Rightarrow> Inr v)"

text \<open>
  One round of the loop over \<open>wm.items()\<close>: \<open>None\<close> when the document is skipped
  (\<open>continue\<close>, or a score that is not positive), the scored pair otherwise. The
  source computes \<open>dot\<close>, then \<open>d_norm\<close>, then \<open>q_norm\<close>; each \<open>**\<close> can raise. When a
  norm or the product of the norms is infinite, so is the square root, and the score
  is 0.0 or not a number: it is not positive and the document is skipped. When the
  product of the norms underflows to 0.0 the division raises.
\<close>

definition score_doc :: "(string \<times> real) list \<Rightarrow> string \<times> (string \<times> real) list
    \<Rightarrow> py_error + (string \<times> real) option" where
  "score_doc q_vec = (\<lambda>(doc, weights).
     bind (mapM (\<lambda>(t, wq). bind (dict_item weights t) (\<lambda>w. Inr (fl_mul w wq)))
             (filter (\<lambda>(t, wq). map_of weights t \<noteq> None) q_vec)) (\<lambda>prods.
     bind (mapM (\<lambda>(t, w). py_sq w) weights) (\<lambda>d_squares.
     bind (mapM (\<lambda>(t, wq). py_sq wq) q_vec) (\<lambda>q_squares.
     let dot = sum_list prods;
         d_norm = sum_list d_squares;
         q_norm = sum_list q_squares
     in if d_norm = 0 \<or> q_norm = 0 then Inr None
        else if float_huge \<le> d_norm \<or> float_huge \<le> q_norm \<or> float_huge \<le> d_norm * q_norm
        then Inr None
        else bind (py_sqrt (fl_mul d_norm q_norm)) (\<lambda>r.
             bind (py_div dot r) (\<lambda>quotient.
             let score = fl_flush quotient
             in Inr (if 0 < score then Some (doc, score) else None)))))))"

text \<open>The query vector \<open>q_vec\<close>, from the counted tokens of the query.\<close>

definition query_vector :: "(string \<Rightarrow> string) \<Rightarrow> string set \<Rightarrow> string \<Rightarrow> vsm_model \<Rightarrow> string
    \<Rightarrow> py_error + (string \<times> real) list" where
  "query_vector stem stopwords query vsm scheme =
     (let q_tokens = preprocess stem stopwords query;
          q_tf = counter q_tokens
      in mapM (q_weight scheme (vsm_idf vsm)) q_tf)"

text \<open>The list \<open>doc_scores\<close> when the loop ends.\<close>

definition doc_scores :: "(string \<Rightarrow> string) \<Rightarrow> string set \<Rightarrow> string \<Rightarrow> vsm_model
    \<Rightarrow> (string \<times> (string \<times> real) list) list \<Rightarrow> string \<Rightarrow> py_error + (string \<times> real) list" where
  "doc_scores stem stopwords query vsm wm scheme =
     bind (query_vector stem stopwords query vsm scheme) (\<lambda>q_vec.
     bind (mapM (score_doc q_vec) wm) (\<lambda>scored.
     Inr (List.map_filter (\<lambda>x. x) scored)))"

text \<open>
  \<open>doc_scores.sort(key=lambda x: x[1], reverse=True)\<close> is a stable sort by descending
  score: \<open>sort_key\<close> on the negated score. Then \<open>doc_scores[:top_k]\<close>.
\<close>

definition rank_vsm :: "(string \<Rightarrow> string) \<Rightarrow> string set \<Rightarrow> string \<Rightarrow> vsm_model
    \<Rightarrow> (string \<times> (string \<times> real) list) list \<Rightarrow> string \<Rightarrow> int \<Rightarrow> py_error + (string \<times> real) list" where
  "rank_vsm stem stopwords query vsm wm scheme top_k =
     bind (doc_scores stem stopwords query vsm wm scheme) (\<lambda>ds.
     Inr (py_slice_to (sort_key (\<lambda>x. - snd x) ds) top_k))"

subsection \<open>The quantities of the specification\<close>

text \<open>
  The document frequency of a term as the specification defines it: the number of
  documents whose tokens contain the term at least once.
\<close>

definition doc_freq :: "(string \<Rightarrow> string) \<Rightarrow> string set \<Rightarrow> (string \<times> string list) list \<Rightarrow> string \<Rightarrow> nat" where
  "doc_freq stem stopwords docs t =
     length (filter (\<lambda>(doc_id, text). t \<in> set (doc_tokens stem stopwords text)) docs)"

text \<open>The smoothed inverse document frequency of the specification, \<open>log((N+1)/(df+1)) + 1\<close>.\<close>

definition spec_idf :: "nat \<Rightarrow> nat \<Rightarrow> real" where
  "spec_idf N n = ln ((real N + 1) / (real n + 1)) + 1"

text \<open>
  The cosine of the specification: the dot product over the product of the norms,
  and 0 when a norm is 0.
\<close>

definition dot_product :: "(string \<times> real) list \<Rightarrow> (string \<times> real) list \<Rightarrow> real" where
  "dot_product q_vec weights =
     sum_list (map (\<lambda>(t, wq). case map_of weights t of None \<Rightarrow> 0 | Some w \<Rightarrow> w * wq) q_vec)"

definition norm_of :: "(string \<times> real) list \<Rightarrow> real" where
  "norm_of v = sqrt (sum_list (map (\<lambda>(t, w). w\<^sup>2) v))"

definition cosine :: "(string \<times> real) list \<Rightarrow> (string \<times> real) list \<Rightarrow> real" where
  "cosine q_vec weights =
     (if norm_of q_vec = 0 \<or> norm_of weights = 0 then 0
      else dot_product q_vec weights / (norm_of q_vec * norm_of weights))"

section \<open>Evaluation metrics\<close>

text \<open>\<open>precision_recall\<close> of boolean\_ir.py, on finite sets.\<close>

definition precision_recall :: "'d set \<Rightarrow> 'd set \<Rightarrow> real \<times> real" where
  "precision_recall result gold =
     (if result = {} \<and> gold = {} then (1, 1)
      else if result = {} then (0, 0)
      else (let tp = card (result \<inter> gold);
                precision = real tp / real (card result);
                recall = (if gold \<noteq> {} then real tp / real (card gold) else 0)
            in (py_round2 precision, py_round2 recall)))"

text \<open>
  The loop of \<open>evaluate_vsm\<close> that accumulates the average precision: \<open>i\<close> is the rank
  (from 1), \<open>num_hits\<close> the hits so far.
\<close>

fun ap_loop :: "nat list \<Rightarrow> nat \<Rightarrow> nat \<Rightarrow> real \<Rightarrow> real" where
  "ap_loop [] i num_hits ap = ap"
| "ap_loop (h # hits) i num_hits ap =
     (if h = 1 then ap_loop hits (i + 1) (num_hits + 1) (ap + real (num_hits + 1) / real i)
      else ap_loop hits (i + 1) num_hits ap)"

text \<open>
  \<open>evaluate_vsm(results, gold_set, k)\<close>. The division by \<open>k\<close> is the one operation that
  can raise: the other divisions are guarded by the source, or divide by a rank
  \<open>i \<ge> 1\<close> or by \<open>log2(i + 1) \<ge> 1\<close>.
\<close>

definition evaluate_vsm :: "('d \<times> real) list \<Rightarrow> 'd set \<Rightarrow> int
    \<Rightarrow> py_error + (real \<times> real \<times> real \<times> real \<times> real)" where
  "evaluate_vsm results gold_set k =
     (let r = map fst (py_slice_to results k);
          hits = map (\<lambda>doc. if doc \<in> gold_set then 1 else 0 :: nat) r
      in bind (py_div (real (sum_list hits)) (of_int k)) (\<lambda>precision.
         let recall = (if gold_set \<noteq> {} then real (sum_list hits) / real (card gold_set) else 0);
             f1 = (if 0 < precision + recall then 2 * precision * recall / (precision + recall) else 0);
             ap = ap_loop hits 1 0 0;
             ap' = (if gold_set \<noteq> {} then ap / real (card gold_set) else 0);
             dcg = sum_list (map (\<lambda>(i, h). real h / log 2 (real (i + 1))) (zip [1 ..< length hits + 1] hits));
             ideal_hits = min (int (card gold_set)) k;
             idcg = sum_list (map (\<lambda>i. 1 / log 2 (of_int (i + 1))) [1 .. ideal_hits]);
             ndcg = (if 0 < idcg then dcg / idcg else 0)
         in Inr (py_round2 precision, py_round2 recall, py_round2 f1, py_round2 ap', py_round2 ndcg)))"

section \<open>Auxiliary notions for the proofs\<close>

text \<open>
  The posting set of a term as the specification defines it: the documents whose
  token sequence contains the term at least once.
\<close>

definition spec_postings :: "('d \<times> string list) list \<Rightarrow> string \<Rightarrow> 'd set" where
  "spec_postings docs t = {d. \<exists>toks. (d, toks) \<in> set docs \<and> t \<in> set toks}"

text \<open>Every set on the value stack lies inside the universe of the index.\<close>

definition bounded :: "(string \<times> 'd set) list \<Rightarrow> 'd set list \<Rightarrow> bool" where
  "bounded idx st = list_all (\<lambda>A. A \<subseteq> all_docs idx) st"

text \<open>The keywords of a token list put in upper case, as \<open>tokenize\<close> does.\<close>

definition token_map :: "string list \<Rightarrow> string list" where
  "token_map ts =  map (\<lambda>t. if t \<in> {''and'', ''or'', ''not''} then str_upper t else t) ts"

text \<open>
  A bare term: a string the tokenizer reads as one token that is not an operator.
  \<open>postings\<close> is the posting set the evaluator looks up for it.
\<close>

definition is_term :: "string \<Rightarrow> bool" where
  "is_term a = (case tokenize a of [t] \<Rightarrow> \<not> is_op t | _ \<Rightarrow> False)"

definition postings :: "(string \<times> 'd set) list \<Rightarrow> string \<Rightarrow> 'd set" where
  "postings idx a = dict_get idx (hd (tokenize a)) {}"

text \<open>
  A bare term given by its letters: a non-empty string of word characters and hyphens
  that, in lower case, is none of the three keywords and does not begin with a keyword
  and a hyphen.
\<close>

definition keyword_led :: "string \<Rightarrow> bool" where
  "keyword_led s = (s = ''not'' \<or> take 4 s = ''not-'' \<or> s = ''and'' \<or> take 4 s = ''and-''
     \<or> s = ''or'' \<or> take 3 s = ''or-'')"

definition is_bare_term :: "string \<Rightarrow> bool" where
  "is_bare_term s = (s \<noteq> [] \<and> list_all is_term_char s \<and> \<not> keyword_led (str_lower s))"

text \<open>
  The range of weights in which the ranker's float arithmetic neither overflows nor
  underflows: a weight is 0 or lies between \<open>2^-200\<close> and \<open>2^200\<close>, and a vector has
  at most \<open>2^64\<close> entries.
\<close>

definition float_safe :: "real \<Rightarrow> bool" where
  "float_safe w = (w = 0 \<or> (1 / 2 ^ 200 \<le> w \<and> w \<le> 2 ^ 200))"

definition safe_vector :: "(string \<times> real) list \<Rightarrow> bool" where
  "safe_vector v = (real (length v) \<le> 2 ^ 64 \<and> list_all (\<lambda>(t, w). float_safe w) v)"

definition safe_model :: "(string \<times> (string \<times> real) list) list \<Rightarrow> bool" where
  "safe_model wm = list_all (\<lambda>(doc, weights). safe_vector weights) wm"

text \<open>
  A collection of at most \<open>2^64\<close> documents, each of at most \<open>2^64\<close> tokens: every
  collection a machine can hold.
\<close>

definition small_collection :: "(string \<Rightarrow> string) \<Rightarrow> string set \<Rightarrow> (string \<times> string list) list \<Rightarrow> bool" where
  "small_collection stem stopwords docs =
     (real (length docs) \<le> 2 ^ 64
      \<and> list_all (\<lambda>(doc_id, text). real (length (doc_tokens stem stopwords text)) \<le> 2 ^ 64) docs)"

text \<open>The entry of \<open>doc_scores\<close> for one document, in terms of the cosine.\<close>

definition positive_score :: "(string \<times> real) list \<Rightarrow> string \<times> (string \<times> real) list \<Rightarrow> (string \<times> real) option" where
  "positive_score q_vec = (\<lambda>(doc, weights).
     if 0 < cosine q_vec weights then Some (doc, cosine q_vec weights) else None)"

section \<open>Facts about the model\<close>

subsection \<open>Exceptions\<close>

lemma bind_Inr [simp]: "bind (Inr x) f = f x"
  by (simp add: bind_def)

lemma bind_Inl [simp]: "bind (Inl e) f = Inl e"
  by (simp add: bind_def)

subsection \<open>The Boolean evaluator returns and stays inside the universe\<close>

lemma eval_tok_cases:
  "eval_tok idx tok st =
     Inr (if tok = ''NOT'' then (case st of [] \<Rightarrow> [all_docs idx - all_docs idx] | A # st' \<Rightarrow> (all_docs idx - A) # st')
          else if tok = ''AND'' then (case st of B # A # st' \<Rightarrow> (A \<inter> B) # st' | _ \<Rightarrow> st)
          else if tok = ''OR'' then (case st of B # A # st' \<Rightarrow> (A \<union> B) # st' | _ \<Rightarrow> st)
          else dict_get idx tok {} # st)"
  by (cases st; cases "tl st") (auto simp: eval_tok_def)

lemma eval_tok_total: "\<exists>st'. eval_tok idx tok st = Inr st'"
  by (simp add: eval_tok_cases)

lemma eval_postfix_total: "\<exists>st'. eval_postfix idx out st = Inr st'"
proof (induction out arbitrary: st)
  case Nil
  show ?case by simp
next
  case (Cons tok out)
  obtain st1 where "eval_tok idx tok st = Inr st1"
    using eval_tok_total by blast
  with Cons.IH [of st1] show ?case by simp
qed

lemma dict_get_subset: "dict_get idx tok {} \<subseteq> all_docs idx"
proof (cases "map_of idx tok")
  case None
  then show ?thesis by (simp add: dict_get_def)
next
  case (Some S)
  then have "(tok, S) \<in> set idx" by (rule map_of_SomeD)
  then have "S \<in> set (map snd idx)" by force
  moreover have "idx \<noteq> []" using Some by auto
  ultimately show ?thesis using Some by (auto simp: dict_get_def all_docs_def)
qed

lemma eval_tok_bounded:
  assumes "eval_tok idx tok st = Inr st'" and "bounded idx st"
  shows "bounded idx st'"
proof -
  have d: "dict_get idx tok {} \<subseteq> all_docs idx" by (rule dict_get_subset)
  show ?thesis
    using assms d unfolding eval_tok_cases bounded_def
    by (auto split: list.splits if_splits)
qed

lemma eval_postfix_bounded:
  "eval_postfix idx out st = Inr st' \<Longrightarrow> bounded idx st \<Longrightarrow> bounded idx st'"
proof (induction out arbitrary: st)
  case Nil
  then show ?case by simp
next
  case (Cons tok out)
  obtain st1 where s: "eval_tok idx tok st = Inr st1"
    using eval_tok_total by blast
  then have "bounded idx st1" using Cons.prems(2) by (rule eval_tok_bounded)
  moreover have "eval_postfix idx out st1 = Inr st'" using Cons.prems(1) s by simp
  ultimately show ?case by (rule Cons.IH [rotated])
qed

lemma stack_top_bounded: "bounded idx st \<Longrightarrow> stack_top st \<subseteq> all_docs idx"
  by (cases st) (simp_all add: stack_top_def bounded_def)

lemma eval_boolean_subset: "\<exists>S. eval_boolean query idx = Inr S \<and> S \<subseteq> all_docs idx"
proof -
  obtain st where s: "eval_postfix idx (to_postfix (tokenize query) [] []) [] = Inr st"
    using eval_postfix_total by blast
  have "bounded idx []" by (simp add: bounded_def)
  with s have "bounded idx st" by (rule eval_postfix_bounded)
  then have "stack_top st \<subseteq> all_docs idx" by (rule stack_top_bounded)
  with s show ?thesis by (simp add: eval_boolean_def)
qed

subsection \<open>The tokenizer splits at spaces\<close>

lemma runs_sep: "\<not> p c \<Longrightarrow> runs p acc (xs @ c # ys) = runs p acc xs @ runs p [] ys"
  by (induction xs arbitrary: acc) simp_all

lemma runs_no_match: "list_all (\<lambda>c. \<not> p c) ws \<Longrightarrow> runs p acc ws = runs p acc []"
  by (induction ws arbitrary: acc) simp_all

lemma runs_trailing: "list_all (\<lambda>c. \<not> p c) ws \<Longrightarrow> runs p acc (xs @ ws) = runs p acc xs"
  by (induction xs arbitrary: acc) (simp_all add: runs_no_match)

lemma runs_leading: "list_all (\<lambda>c. \<not> p c) ws \<Longrightarrow> runs p [] (ws @ xs) = runs p [] xs"
  by (induction ws) simp_all

lemma space_not_term_char: "is_space c \<Longrightarrow> \<not> is_term_char c"
proof -
  assume s: "is_space c"
  have "c \<noteq> CHR ''-''" "c \<noteq> CHR ''_''"
    using s by (auto simp: is_space_def)
  then show ?thesis
    using s by (auto simp: is_space_def is_term_char_def is_word_def is_digit_def is_upper_def is_lower_def Let_def)
qed

lemma spaces_not_term: "list_all is_space ws \<Longrightarrow> list_all (\<lambda>c. \<not> is_term_char c) ws"
  by (induction ws) (simp_all add: space_not_term_char)

lemma list_all_takeWhile: "list_all p (takeWhile p xs)"
  by (induction xs) simp_all

lemma strip_split: "xs = rev (dropWhile p (rev xs)) @ rev (takeWhile p (rev xs))"
proof -
  have "rev (takeWhile p (rev xs) @ dropWhile p (rev xs)) = rev (rev xs)"
    by (simp only: takeWhile_dropWhile_id)
  then show ?thesis
    by (simp only: rev_append rev_rev_ident)
qed

lemma runs_strip: "runs is_term_char [] (str_strip s) = runs is_term_char [] s"
proof -
  let ?t = "dropWhile is_space s"
  have t: "?t = str_strip s @ rev (takeWhile is_space (rev ?t))"
    unfolding str_strip_def by (rule strip_split)
  have "list_all is_space (rev (takeWhile is_space (rev ?t)))"
    by (simp add: list_all_takeWhile)
  then have "runs is_term_char [] (str_strip s @ rev (takeWhile is_space (rev ?t))) = runs is_term_char [] (str_strip s)"
    by (intro runs_trailing spaces_not_term)
  with t have a: "runs is_term_char [] ?t = runs is_term_char [] (str_strip s)"
    by simp
  have "runs is_term_char [] (takeWhile is_space s @ ?t) = runs is_term_char [] ?t"
    by (intro runs_leading spaces_not_term list_all_takeWhile)
  then have "runs is_term_char [] s = runs is_term_char [] ?t"
    by simp
  with a show ?thesis by simp
qed

lemma re_findall_strip: "re_findall (str_strip s) = re_findall s"
  by (simp add: re_findall_def runs_strip)

lemma re_findall_space:
  "re_findall (xs @ CHR '' '' # ys) = re_findall xs @ re_findall ys"
proof -
  have "\<not> is_term_char CHR '' ''"
    by (simp add: is_term_char_def is_word_def is_digit_def is_upper_def is_lower_def)
  then show ?thesis
    by (simp add: re_findall_def runs_sep)
qed

lemma tokenize_alt: "tokenize query = token_map (re_findall (str_lower query))"
  by (simp add: tokenize_def token_map_def re_findall_strip)

lemma tokenize_and: "tokenize (a @ '' AND '' @ b) = tokenize a @ [''AND''] @ tokenize b"
proof -
  have "str_lower '' AND '' = '' and ''"
    by code_simp
  then have l: "str_lower (a @ '' AND '' @ b) = str_lower a @ CHR '' '' # (''and'' @ CHR '' '' # str_lower b)"
    by (simp add: str_lower_def)
  have k: "token_map (re_findall ''and'') = [''AND'']"
    by code_simp
  show ?thesis
    unfolding tokenize_alt l re_findall_space using k by (simp add: token_map_def)
qed

lemma tokenize_or: "tokenize (a @ '' OR '' @ b) = tokenize a @ [''OR''] @ tokenize b"
proof -
  have "str_lower '' OR '' = '' or ''"
    by code_simp
  then have l: "str_lower (a @ '' OR '' @ b) = str_lower a @ CHR '' '' # (''or'' @ CHR '' '' # str_lower b)"
    by (simp add: str_lower_def)
  have k: "token_map (re_findall ''or'') = [''OR'']"
    by code_simp
  show ?thesis
    unfolding tokenize_alt l re_findall_space using k by (simp add: token_map_def)
qed

lemma eval_two_terms:
  assumes "\<not> is_op ta" "\<not> is_op tb"
  shows "bind (eval_postfix idx (to_postfix [ta, ''AND'', tb] [] []) []) (\<lambda>st. Inr (stack_top st)) = Inr (dict_get idx ta {} \<inter> dict_get idx tb {})"
    and "bind (eval_postfix idx (to_postfix [ta, ''OR'', tb] [] []) []) (\<lambda>st. Inr (stack_top st)) = Inr (dict_get idx ta {} \<union> dict_get idx tb {})"
  using assms by (simp_all add: is_op_def eval_tok_def stack_top_def)

lemma eval_boolean_and:
  assumes "is_term a" "is_term b"
  shows "eval_boolean (a @ '' AND '' @ b) idx = Inr (postings idx a \<inter> postings idx b)"
proof -
  from assms obtain ta tb where t: "tokenize a = [ta]" "\<not> is_op ta" "tokenize b = [tb]" "\<not> is_op tb"
    by (auto simp: is_term_def split: list.splits)
  show ?thesis
    unfolding eval_boolean_def tokenize_and using t eval_two_terms(1) [of ta tb idx]
    by (simp add: postings_def)
qed

lemma eval_boolean_or:
  assumes "is_term a" "is_term b"
  shows "eval_boolean (a @ '' OR '' @ b) idx = Inr (postings idx a \<union> postings idx b)"
proof -
  from assms obtain ta tb where t: "tokenize a = [ta]" "\<not> is_op ta" "tokenize b = [tb]" "\<not> is_op tb"
    by (auto simp: is_term_def split: list.splits)
  show ?thesis
    unfolding eval_boolean_def tokenize_or using t eval_two_terms(2) [of ta tb idx]
    by (simp add: postings_def)
qed

subsection \<open>Term statistics\<close>

lemma dict_get_lookup:
  "map_of d k = r \<Longrightarrow> dict_get d k dflt = (case r of None \<Rightarrow> dflt | Some v \<Rightarrow> v)"
  by (simp add: dict_get_def)

lemma mapM_Inr: "(\<And>x. x \<in> set xs \<Longrightarrow> f x = Inr (g x)) \<Longrightarrow> mapM f xs = Inr (map g xs)"
  by (induction xs) simp_all

lemma idf_value_eq: "idf_value N n = Inr (spec_idf N n)"
proof -
  have a: "real n + 1 \<noteq> 0" by (simp add: add_nonneg_eq_0_iff)
  have "0 < (real N + 1) / (real n + 1)" by simp
  then have b: "\<not> (real N + 1) / (real n + 1) \<le> 0" by (simp only: not_le)
  show ?thesis
    unfolding idf_value_def py_div_def py_log_def spec_idf_def using a b by simp
qed

lemma build_vsm_eq:
  "build_vsm stem sw docs =
     Inr \<lparr>vsm_tf = build_tf stem sw docs, vsm_df = build_df stem sw docs,
          vsm_idf = map (\<lambda>(t, n). (t, spec_idf (length docs) n)) (build_df stem sw docs),
          vsm_docs = docs\<rparr>"
proof -
  have "mapM (\<lambda>(t, n). bind (idf_value (length docs) n) (\<lambda>v. Inr (t, v))) (build_df stem sw docs)
      = Inr (map (\<lambda>(t, n). (t, spec_idf (length docs) n)) (build_df stem sw docs))"
    by (rule mapM_Inr) (auto simp: idf_value_eq)
  then show ?thesis by (simp add: build_vsm_def Let_def)
qed

lemma spec_idf_pos: "n \<le> N \<Longrightarrow> 1 \<le> spec_idf N n"
proof -
  assume "n \<le> N"
  then have "1 \<le> (real N + 1) / (real n + 1)" by simp
  then have "0 \<le> ln ((real N + 1) / (real n + 1))" by simp
  then show ?thesis by (simp add: spec_idf_def)
qed

text \<open>Counting with a dictionary.\<close>

lemma map_of_counter_incr:
  "map_of (counter_incr x c) t = (if t = x then Some (dict_get c x 0 + 1) else map_of c t)"
  by (simp add: counter_incr_def update_conv')

lemma dict_get_counter_incr:
  "dict_get (counter_incr x c) t 0 = (if t = x then dict_get c x 0 + 1 else dict_get c t 0)"
  by (simp add: dict_get_def map_of_counter_incr)

lemma count_fold:
  "map_of (fold counter_incr xs c0) t =
     (if t \<in> set xs then Some (dict_get c0 t 0 + count_list xs t) else map_of c0 t)"
proof (induction xs arbitrary: c0)
  case Nil
  show ?case by simp
next
  case (Cons x xs)
  show ?case
    by (simp add: Cons.IH map_of_counter_incr dict_get_counter_incr)
qed

lemma map_of_counter:
  "map_of (counter xs) t = (if t \<in> set xs then Some (count_list xs t) else None)"
  by (simp add: counter_def count_fold dict_get_def)

lemma count_list_pos: "t \<in> set xs \<Longrightarrow> 0 < count_list xs t"
  by (induction xs) auto

lemma count_list_distinct: "distinct xs \<Longrightarrow> t \<in> set xs \<Longrightarrow> count_list xs t = 1"
  by (induction xs) auto

lemma distinct_count_fold:
  "distinct (map fst c0) \<Longrightarrow> distinct (map fst (fold counter_incr xs c0))"
  by (induction xs arbitrary: c0) (simp_all add: counter_incr_def distinct_update)

lemma distinct_counter: "distinct (map fst (counter xs))"
  by (simp add: counter_def distinct_count_fold)

lemma counter_pos: "(t, f) \<in> set (counter xs) \<Longrightarrow> 0 < f"
proof -
  assume a: "(t, f) \<in> set (counter xs)"
  have "distinct (map fst (counter xs))" by (rule distinct_counter)
  with a have "map_of (counter xs) t = Some f" by simp
  then show ?thesis
    by (auto simp: map_of_counter count_list_pos split: if_splits)
qed

lemma df_add_lookup:
  "map_of (df_add tokens df) t = (if t \<in> set tokens then Some (dict_get df t 0 + 1) else map_of df t)"
proof -
  have "map_of (df_add tokens df) t =
      (if t \<in> set (remdups tokens) then Some (dict_get df t 0 + count_list (remdups tokens) t) else map_of df t)"
    unfolding df_add_def by (rule count_fold)
  moreover have "t \<in> set tokens \<Longrightarrow> count_list (remdups tokens) t = 1"
    by (simp add: count_list_distinct)
  ultimately show ?thesis by simp
qed

lemma build_df_fold:
  "map_of (fold (\<lambda>(doc_id, text) df. df_add (doc_tokens stem sw text) df) docs df0) t =
     (if doc_freq stem sw docs t = 0 then map_of df0 t
      else Some (dict_get df0 t 0 + doc_freq stem sw docs t))"
proof (induction docs arbitrary: df0)
  case Nil
  show ?case by (simp add: doc_freq_def)
next
  case (Cons p docs)
  obtain doc_id toks where p: "p = (doc_id, toks)" by (cases p)
  show ?case
    unfolding p by (simp add: Cons.IH df_add_lookup doc_freq_def dict_get_def)
qed

lemma map_of_build_df:
  "map_of (build_df stem sw docs) t =
     (if doc_freq stem sw docs t = 0 then None else Some (doc_freq stem sw docs t))"
  by (simp add: build_df_def build_df_fold dict_get_def)

lemma doc_freq_le: "doc_freq stem sw docs t \<le> length docs"
  by (simp add: doc_freq_def)

lemma doc_freq_pos:
  "(d, toks) \<in> set docs \<Longrightarrow> t \<in> set (doc_tokens stem sw toks) \<Longrightarrow> 0 < doc_freq stem sw docs t"
  unfolding doc_freq_def by (induction docs) auto

lemma build_tf_fold:
  "map_of (fold (\<lambda>(doc_id, text) tf. AList.update doc_id (g text) tf) docs tf0) d =
     (case map_of (rev docs) d of None \<Rightarrow> map_of tf0 d | Some text \<Rightarrow> Some (g text))"
proof (induction docs arbitrary: tf0)
  case Nil
  show ?case by simp
next
  case (Cons p docs)
  obtain doc_id toks where p: "p = (doc_id, toks)" by (cases p)
  show ?case
    unfolding p by (simp add: Cons.IH update_conv' map_add_def split: option.splits)
qed

lemma map_of_rev_distinct: "distinct (map fst xs) \<Longrightarrow> map_of (rev xs) = map_of xs"
  by (rule map_of_inject_set [THEN iffD2]) (simp_all add: rev_map [symmetric])

lemma map_of_build_tf:
  assumes "distinct (map fst docs)" and "(d, toks) \<in> set docs"
  shows "map_of (build_tf stem sw docs) d = Some (counter (doc_tokens stem sw toks))"
proof -
  have "map_of (rev docs) d = Some toks"
    using assms by (simp add: map_of_rev_distinct)
  then show ?thesis
    by (simp add: build_tf_def build_tf_fold)
qed

lemma map_of_weight_standard:
  "map_of (weight_tfidf_standard vsm) d =
     map_option (map (\<lambda>(term, freq). (term, real freq * dict_get (vsm_idf vsm) term 0))) (map_of (vsm_tf vsm) d)"
  by (simp add: weight_tfidf_standard_def map_of_map)

lemma map_of_map_key:
  "map_of (map (\<lambda>(k, v). (k, f k v)) xs) t = map_option (f t) (map_of xs t)"
  by (induction xs) auto

subsection \<open>The float range of the ranker\<close>

lemma float_tiny_pos: "0 < float_tiny"
  by (simp add: float_tiny_def)

lemma float_tiny_small: "float_tiny < 1 / 2 ^ 864"
  by (simp add: float_tiny_def)

lemma float_huge_large: "2 ^ 928 < float_huge"
  by (simp add: float_huge_def)

lemma fl_flush_0 [simp]: "fl_flush 0 = 0"
  by (simp add: fl_flush_def)

lemma fl_flush_id: "float_tiny < \<bar>x\<bar> \<Longrightarrow> fl_flush x = x"
  by (simp add: fl_flush_def)

lemma float_safe_nonneg: "float_safe w \<Longrightarrow> 0 \<le> w"
proof -
  assume "float_safe w"
  moreover have "(0 :: real) \<le> 1 / 2 ^ 200" by simp
  ultimately show ?thesis unfolding float_safe_def by linarith
qed

lemma float_safe_sq:
  assumes "float_safe w"
  shows "w\<^sup>2 = 0 \<or> (1 / 2 ^ 400 \<le> w\<^sup>2 \<and> w\<^sup>2 \<le> 2 ^ 400)"
proof (cases "w = 0")
  case True
  then show ?thesis by simp
next
  case False
  with assms have l: "1 / 2 ^ 200 \<le> w" and u: "w \<le> 2 ^ 200"
    by (simp_all add: float_safe_def)
  have "(1 / 2 ^ 200)\<^sup>2 \<le> w\<^sup>2"
    using l by (intro power_mono) simp_all
  moreover have "w\<^sup>2 \<le> (2 ^ 200)\<^sup>2"
    using u float_safe_nonneg [OF assms] by (intro power_mono) simp_all
  ultimately show ?thesis by (simp add: power_divide)
qed

lemma float_safe_mult:
  assumes "float_safe a" and "float_safe b"
  shows "a * b = 0 \<or> (1 / 2 ^ 400 \<le> a * b \<and> a * b \<le> 2 ^ 400)"
proof (cases "a = 0 \<or> b = 0")
  case True
  then show ?thesis by auto
next
  case False
  with assms have a: "1 / 2 ^ 200 \<le> a" "a \<le> 2 ^ 200" and b: "1 / 2 ^ 200 \<le> b" "b \<le> 2 ^ 200"
    by (simp_all add: float_safe_def)
  have "(1 / 2 ^ 200) * (1 / 2 ^ 200) \<le> a * b"
    using a(1) b(1) by (intro mult_mono) simp_all
  moreover have "a * b \<le> 2 ^ 200 * 2 ^ 200"
    using a(2) b(2) float_safe_nonneg [OF assms(1)] float_safe_nonneg [OF assms(2)]
    by (intro mult_mono) simp_all
  ultimately show ?thesis by simp
qed

lemma in_range_flush:
  assumes "x = 0 \<or> (1 / 2 ^ 400 \<le> x \<and> x \<le> 2 ^ 400)"
  shows "fl_flush x = x" and "\<not> float_huge \<le> x"
proof -
  have t: "float_tiny < 1 / 2 ^ 400" by (simp add: float_tiny_def)
  have h: "2 ^ 400 < float_huge" by (simp add: float_huge_def)
  have p: "0 < float_huge" by (simp add: float_huge_def)
  from assms t show "fl_flush x = x"
    by (auto simp: fl_flush_def)
  from assms h p show "\<not> float_huge \<le> x"
    by auto
qed

lemma py_sq_safe: "float_safe w \<Longrightarrow> py_sq w = Inr (w\<^sup>2)"
  using in_range_flush [OF float_safe_sq, of w] by (simp add: py_sq_def)

lemma fl_mul_safe: "float_safe a \<Longrightarrow> float_safe b \<Longrightarrow> fl_mul a b = a * b"
  using in_range_flush(1) [OF float_safe_mult, of a b] by (simp add: fl_mul_def)

text \<open>Sums of values that are 0 or at least \<open>lo\<close>, and at most \<open>hi\<close>.\<close>

lemma sum_list_range:
  assumes "\<forall>x \<in> set xs. x = 0 \<or> (lo \<le> x \<and> x \<le> hi)" and "0 < lo" and "lo \<le> hi"
  shows "0 \<le> sum_list xs \<and> (sum_list xs = 0 \<or> lo \<le> sum_list xs)
     \<and> sum_list xs \<le> real (length xs) * hi"
  using assms(1)
proof (induction xs)
  case Nil
  show ?case by simp
next
  case (Cons x xs)
  then have ih: "0 \<le> sum_list xs" "sum_list xs = 0 \<or> lo \<le> sum_list xs"
      "sum_list xs \<le> real (length xs) * hi"
    by simp_all
  have x: "x = 0 \<or> (lo \<le> x \<and> x \<le> hi)" using Cons.prems by simp
  have hi: "0 < hi" using assms(2,3) by linarith
  have a: "0 \<le> x + sum_list xs" using x ih(1) assms(2) by auto
  have b: "x + sum_list xs = 0 \<or> lo \<le> x + sum_list xs" using x ih(1,2) assms(2) by auto
  have "x \<le> hi" using x hi by auto
  with ih(3) have c: "x + sum_list xs \<le> (1 + real (length xs)) * hi"
    by (simp add: algebra_simps)
  from a b c show ?case by simp
qed

lemma safe_vector_squares:
  assumes "safe_vector v"
  shows "mapM (\<lambda>(t, w). py_sq w) v = Inr (map (\<lambda>(t, w). w\<^sup>2) v)"
    and "0 \<le> sum_list (map (\<lambda>(t, w). w\<^sup>2) v)"
    and "sum_list (map (\<lambda>(t, w). w\<^sup>2) v) = 0 \<or> 1 / 2 ^ 400 \<le> sum_list (map (\<lambda>(t, w). w\<^sup>2) v)"
    and "sum_list (map (\<lambda>(t, w). w\<^sup>2) v) \<le> 2 ^ 464"
proof -
  have s: "\<And>t w. (t, w) \<in> set v \<Longrightarrow> float_safe w"
    using assms by (auto simp: safe_vector_def list_all_iff)
  show "mapM (\<lambda>(t, w). py_sq w) v = Inr (map (\<lambda>(t, w). w\<^sup>2) v)"
    by (rule mapM_Inr) (auto simp: py_sq_safe s)
  have "\<forall>x \<in> set (map (\<lambda>(t, w). w\<^sup>2) v). x = 0 \<or> (1 / 2 ^ 400 \<le> x \<and> x \<le> 2 ^ 400)"
    using s float_safe_sq by fastforce
  from sum_list_range [OF this]
  have r: "0 \<le> sum_list (map (\<lambda>(t, w). w\<^sup>2) v)"
      "sum_list (map (\<lambda>(t, w). w\<^sup>2) v) = 0 \<or> 1 / 2 ^ 400 \<le> sum_list (map (\<lambda>(t, w). w\<^sup>2) v)"
      "sum_list (map (\<lambda>(t, w). w\<^sup>2) v) \<le> real (length v) * 2 ^ 400"
    by simp_all
  show "0 \<le> sum_list (map (\<lambda>(t, w). w\<^sup>2) v)" by (rule r(1))
  show "sum_list (map (\<lambda>(t, w). w\<^sup>2) v) = 0 \<or> 1 / 2 ^ 400 \<le> sum_list (map (\<lambda>(t, w). w\<^sup>2) v)"
    by (rule r(2))
  have "real (length v) \<le> 2 ^ 64"
    using assms by (simp add: safe_vector_def)
  then have "real (length v) * 2 ^ 400 \<le> 2 ^ 64 * 2 ^ 400"
    by (intro mult_right_mono) simp_all
  with r(3) show "sum_list (map (\<lambda>(t, w). w\<^sup>2) v) \<le> 2 ^ 464"
    by simp
qed

lemma safe_products:
  assumes "safe_vector q_vec" and "safe_vector weights"
  shows "\<exists>prods. mapM (\<lambda>(t, wq). bind (dict_item weights t) (\<lambda>w. Inr (fl_mul w wq)))
             (filter (\<lambda>(t, wq). map_of weights t \<noteq> None) q_vec) = Inr prods
        \<and> sum_list prods = dot_product q_vec weights
        \<and> (\<forall>x \<in> set prods. x = 0 \<or> (1 / 2 ^ 400 \<le> x \<and> x \<le> 2 ^ 400))"
proof -
  have sw: "\<And>t w. map_of weights t = Some w \<Longrightarrow> float_safe w"
    using assms(2) by (auto simp: safe_vector_def list_all_iff dest: map_of_SomeD)
  have "list_all (\<lambda>(t, w). float_safe w) q_vec"
    using assms(1) by (simp add: safe_vector_def)
  then show ?thesis
  proof (induction q_vec)
    case Nil
    show ?case by (simp add: dot_product_def)
  next
    case (Cons p q_vec)
    obtain t wq where p: "p = (t, wq)" by (cases p)
    from Cons.prems have q: "float_safe wq" and r: "list_all (\<lambda>(t, w). float_safe w) q_vec"
      by (simp_all add: p)
    from Cons.IH [OF r] obtain prods where
      a: "mapM (\<lambda>(t, wq). bind (dict_item weights t) (\<lambda>w. Inr (fl_mul w wq)))
             (filter (\<lambda>(t, wq). map_of weights t \<noteq> None) q_vec) = Inr prods"
      and b: "sum_list prods = dot_product q_vec weights"
      and c: "\<forall>x \<in> set prods. x = 0 \<or> (1 / 2 ^ 400 \<le> x \<and> x \<le> 2 ^ 400)"
      by blast
    show ?case
    proof (cases "map_of weights t")
      case None
      then show ?thesis
        unfolding p using a b c by (auto simp: dot_product_def)
    next
      case (Some w)
      then have w: "float_safe w" by (rule sw)
      have m: "fl_mul w wq = w * wq" using w q by (rule fl_mul_safe)
      have "w * wq = 0 \<or> (1 / 2 ^ 400 \<le> w * wq \<and> w * wq \<le> 2 ^ 400)"
        using w q by (rule float_safe_mult)
      then show ?thesis
        unfolding p using a b c Some m by (auto simp: dot_product_def dict_item_def)
    qed
  qed
qed


lemma norm_of_zero: "norm_of v = 0 \<longleftrightarrow> sum_list (map (\<lambda>(t, w). w\<^sup>2) v) = 0"
proof -
  have "0 \<le> sum_list (map (\<lambda>(t, w). w\<^sup>2) v)"
    by (induction v) auto
  then show ?thesis by (simp add: norm_of_def)
qed

lemma sqrt_2_928: "sqrt (2 ^ 928) = 2 ^ 464"
proof -
  have "sqrt ((2 ^ 464)\<^sup>2) = 2 ^ 464" by (rule real_sqrt_unique) simp_all
  then show ?thesis by simp
qed

lemma score_doc_safe:
  assumes "safe_vector q_vec" and "safe_vector weights"
  shows "score_doc q_vec (doc, weights) =
     Inr (if 0 < cosine q_vec weights then Some (doc, cosine q_vec weights) else None)"
proof -
  let ?d = "sum_list (map (\<lambda>(t, w). w\<^sup>2) weights)"
  let ?q = "sum_list (map (\<lambda>(t, wq). wq\<^sup>2) q_vec)"
  let ?dot = "dot_product q_vec weights"
  obtain prods where
    a: "mapM (\<lambda>(t, wq). bind (dict_item weights t) (\<lambda>w. Inr (fl_mul w wq)))
             (filter (\<lambda>(t, wq). map_of weights t \<noteq> None) q_vec) = Inr prods"
    and b: "sum_list prods = ?dot"
    and c: "\<forall>x \<in> set prods. x = 0 \<or> (1 / 2 ^ 400 \<le> x \<and> x \<le> 2 ^ 400)"
    using safe_products [OF assms] by blast
  note ds = safe_vector_squares [OF assms(2)]
  note qs = safe_vector_squares [OF assms(1)]
  have dot: "0 \<le> ?dot" "?dot = 0 \<or> 1 / 2 ^ 400 \<le> ?dot"
    using sum_list_range [OF c] b by simp_all
  have e: "score_doc q_vec (doc, weights) =
     (if ?d = 0 \<or> ?q = 0 then Inr None
      else if float_huge \<le> ?d \<or> float_huge \<le> ?q \<or> float_huge \<le> ?d * ?q then Inr None
      else bind (py_sqrt (fl_mul ?d ?q)) (\<lambda>r.
           bind (py_div ?dot r) (\<lambda>quotient.
           Inr (if 0 < fl_flush quotient then Some (doc, fl_flush quotient) else None))))"
    unfolding score_doc_def prod.case a ds(1) qs(1) bind_Inr Let_def b ..
  show ?thesis
  proof (cases "?d = 0 \<or> ?q = 0")
    case True
    then have "cosine q_vec weights = 0"
      by (auto simp: cosine_def norm_of_zero)
    with True show ?thesis
      unfolding e by simp
  next
    case False
    then have dl: "1 / 2 ^ 400 \<le> ?d" and ql: "1 / 2 ^ 400 \<le> ?q"
      using ds(3) qs(3) by auto
    have du: "?d \<le> 2 ^ 464" and qu: "?q \<le> 2 ^ 464" by (rule ds(4), rule qs(4))
    have h: "2 ^ 928 < float_huge" by (rule float_huge_large)
    have pl: "1 / 2 ^ 400 * (1 / 2 ^ 400) \<le> ?d * ?q"
      using dl ql by (intro mult_mono) simp_all
    have pu: "?d * ?q \<le> 2 ^ 464 * 2 ^ 464"
      using du qu ds(2) qs(2) by (intro mult_mono) simp_all
    have pos: "0 < ?d * ?q" using pl by (simp add: less_le_trans [of 0 "1 / 2 ^ 800"])
    have nh: "\<not> (float_huge \<le> ?d \<or> float_huge \<le> ?q \<or> float_huge \<le> ?d * ?q)"
      using du qu pu h by auto
    have "float_tiny < 1 / 2 ^ 800" by (simp add: float_tiny_def)
    with pl pos have fm: "fl_mul ?d ?q = ?d * ?q"
      by (simp add: fl_mul_def fl_flush_def)
    have r0: "0 < sqrt (?d * ?q)" using pos by (rule real_sqrt_gt_zero)
    have "sqrt (?d * ?q) \<le> sqrt (2 ^ 928)"
      using pu by (intro real_sqrt_le_mono) simp
    then have ru: "sqrt (?d * ?q) \<le> 2 ^ 464" by (simp only: sqrt_2_928)
    have cs: "cosine q_vec weights = ?dot / sqrt (?d * ?q)"
      using False by (simp add: cosine_def norm_of_zero) (simp add: norm_of_def real_sqrt_mult mult.commute)
    have fl: "fl_flush (?dot / sqrt (?d * ?q)) = ?dot / sqrt (?d * ?q)"
    proof (cases "?dot = 0")
      case True
      then show ?thesis by simp
    next
      case False
      with dot have "1 / 2 ^ 400 \<le> ?dot" by auto
      then have "1 / 2 ^ 400 / 2 ^ 464 \<le> ?dot / sqrt (?d * ?q)"
        using r0 ru by (intro frac_le) simp_all
      moreover have "float_tiny < 1 / 2 ^ 400 / 2 ^ 464" by (simp add: float_tiny_def)
      ultimately have "float_tiny < \<bar>?dot / sqrt (?d * ?q)\<bar>" by linarith
      then show ?thesis by (rule fl_flush_id)
    qed
    have n: "\<not> ?d * ?q < 0" using pos by linarith
    have s: "sqrt (?d * ?q) \<noteq> 0" using r0 by linarith
    show ?thesis
      unfolding e fm using False nh n s
      by (simp add: py_sqrt_def py_div_def fl cs)
  qed
qed

lemma map_filter_id_map: "List.map_filter (\<lambda>x. x) (map f xs) = List.map_filter f xs"
  by (induction xs) (simp_all split: option.splits)

lemma doc_scores_safe:
  assumes "query_vector stem sw query vsm scheme = Inr q_vec"
    and "safe_vector q_vec" and "safe_model wm"
  shows "doc_scores stem sw query vsm wm scheme = Inr (List.map_filter (positive_score q_vec) wm)"
proof -
  have "mapM (score_doc q_vec) wm = Inr (map (positive_score q_vec) wm)"
  proof (rule mapM_Inr)
    fix x assume x: "x \<in> set wm"
    obtain doc weights where dw: "x = (doc, weights)" by (cases x)
    with x assms(3) have "safe_vector weights"
      by (auto simp: safe_model_def list_all_iff)
    with assms(2) show "score_doc q_vec x = Inr (positive_score q_vec x)"
      unfolding dw by (simp add: score_doc_safe positive_score_def)
  qed
  then show ?thesis
    by (simp add: doc_scores_def assms(1) map_filter_id_map)
qed




lemma q_weight_total:
  assumes "0 < f"
  shows "q_weight scheme idf (t, f) =
     Inr (t, fl_mul (if scheme = ''sublinear'' then 1 + ln (real f) else real f) (dict_get idf t 0))"
  using assms by (simp add: q_weight_def py_log_def)

lemma query_vector_eq:
  "query_vector stem sw query vsm scheme =
     Inr (map (\<lambda>(t, f). (t, fl_mul (if scheme = ''sublinear'' then 1 + ln (real f) else real f)
                                 (dict_get (vsm_idf vsm) t 0)))
            (counter (preprocess stem sw query)))"
proof -
  let ?g = "\<lambda>(t, f). (t, fl_mul (if scheme = ''sublinear'' then 1 + ln (real f) else real f)
                             (dict_get (vsm_idf vsm) t 0))"
  have "mapM (q_weight scheme (vsm_idf vsm)) (counter (preprocess stem sw query))
      = Inr (map ?g (counter (preprocess stem sw query)))"
  proof (rule mapM_Inr)
    fix x assume x: "x \<in> set (counter (preprocess stem sw query))"
    obtain t f where tf: "x = (t, f)" by (cases x)
    with x have "0 < f" by (auto dest: counter_pos)
    then show "q_weight scheme (vsm_idf vsm) x = Inr (?g x)"
      unfolding tf by (simp add: q_weight_total)
  qed
  then show ?thesis by (simp add: query_vector_def)
qed

lemma rank_vsm_safe:
  assumes "query_vector stem sw query vsm scheme = Inr q_vec"
    and "safe_vector q_vec" and "safe_model wm"
  shows "rank_vsm stem sw query vsm wm scheme top_k =
     Inr (py_slice_to (sort_key (\<lambda>x. - snd x) (List.map_filter (positive_score q_vec) wm)) top_k)"
  by (simp add: rank_vsm_def doc_scores_safe [OF assms])

subsection \<open>Worked examples of the ranker\<close>

lemma example_preprocess: "preprocess id {} ''x'' = [''x'']"
  by code_simp

lemma example_counter: "counter [''x''] = [(''x'', 1)]"
  by code_simp

lemma fl_mul_1_1: "fl_mul 1 1 = 1"
  by (simp add: fl_mul_def fl_flush_def float_tiny_def)

lemma example_query_vector:
  assumes "vsm_idf vsm = [(''x'', 1)]"
  shows "query_vector id {} ''x'' vsm scheme = Inr [(''x'', 1)]"
  by (simp add: query_vector_eq example_preprocess example_counter assms dict_get_def fl_mul_1_1)

lemma example_safe:
  "safe_vector [(''x'', 1)]"
  "safe_model [(''d1'', [(''x'', 1)]), (''d2'', [(''x'', 1)])]"
  "safe_model [(''d1'', [(''x'', 1), (''z'', 1), (''w'', 1), (''k'', 1)]), (''d2'', [(''x'', 1)]), (''d3'', [(''z'', 1)])]"
  by (simp_all add: safe_model_def safe_vector_def float_safe_def)

lemma sqrt_4: "sqrt 4 = 2"
proof -
  have "sqrt (2\<^sup>2) = 2" by (rule real_sqrt_unique) simp_all
  then show ?thesis by simp
qed

lemma example_cosine:
  "cosine [(''x'', 1)] [(''x'', 1)] = 1"
  "cosine [(''x'', 1)] [(''x'', 1), (''z'', 1), (''w'', 1), (''k'', 1)] = 1 / 2"
  "cosine [(''x'', 1)] [(''z'', 1)] = 0"
  by (simp_all add: cosine_def norm_of_def dot_product_def sqrt_4)

lemma example_doc_scores:
  assumes "vsm_idf vsm = [(''x'', 1)]"
  shows "doc_scores id {} ''x'' vsm [(''d1'', [(''x'', 1)]), (''d2'', [(''x'', 1)])] scheme
     = Inr [(''d1'', 1), (''d2'', 1)]"
  by (simp add: doc_scores_safe [OF example_query_vector [OF assms] example_safe(1) example_safe(2)]
      positive_score_def example_cosine)

lemma example_doc_scores_three:
  assumes "vsm_idf vsm = [(''x'', 1)]"
  shows "doc_scores id {} ''x'' vsm
     [(''d1'', [(''x'', 1), (''z'', 1), (''w'', 1), (''k'', 1)]), (''d2'', [(''x'', 1)]), (''d3'', [(''z'', 1)])] scheme
     = Inr [(''d1'', 1 / 2), (''d2'', 1)]"
  by (simp add: doc_scores_safe [OF example_query_vector [OF assms] example_safe(1) example_safe(3)]
      positive_score_def example_cosine)

text \<open>Outside the range: a square that overflows, and norms whose product underflows.\<close>

lemma example_overflow:
  "rank_vsm id {} ''x'' \<lparr>vsm_tf = [], vsm_df = [], vsm_idf = [(''x'', 1)], vsm_docs = []\<rparr>
     [(''d1'', [(''x'', 2 ^ 600)])] ''tfidf'' 5 = Inl OverflowError"
proof -
  have "float_huge \<le> (2 ^ 600)\<^sup>2" by (simp add: float_huge_def)
  then have "py_sq (2 ^ 600) = Inl OverflowError" by (simp add: py_sq_def)
  then show ?thesis
    by (simp add: rank_vsm_def doc_scores_def example_query_vector score_doc_def dict_item_def)
qed

text \<open>A squared weight that underflows to zero: the document is skipped.\<close>

lemma example_underflow_skip:
  "rank_vsm id {} ''x'' \<lparr>vsm_tf = [], vsm_df = [], vsm_idf = [(''x'', 1)], vsm_docs = []\<rparr>
     [(''d1'', [(''x'', 1 / 2 ^ 600)])] ''tfidf'' 5 = Inr []"
proof -
  define w :: real where "w = 1 / 2 ^ 600"
  have "w * w \<le> float_tiny" by (simp add: float_tiny_def w_def)
  moreover have "0 \<le> w * w" by simp
  moreover have "\<not> float_huge \<le> w * w" by (simp add: float_huge_def w_def)
  ultimately have s: "py_sq w = Inr 0" by (simp add: py_sq_def fl_flush_def power2_eq_square)
  have "0 < w" by (simp add: w_def)
  moreover have "float_tiny < w" by (simp add: float_tiny_def w_def)
  ultimately have m: "fl_mul w 1 = w" by (simp add: fl_mul_def fl_flush_def)
  have s1: "py_sq 1 = Inr 1"
    using py_sq_safe [of 1] by (simp add: float_safe_def)
  have "score_doc [(''x'', 1)] (''d1'', [(''x'', w)]) = Inr None"
    unfolding score_doc_def prod.case by (simp add: dict_item_def s s1 m)
  then have "rank_vsm id {} ''x'' \<lparr>vsm_tf = [], vsm_df = [], vsm_idf = [(''x'', 1)], vsm_docs = []\<rparr>
     [(''d1'', [(''x'', w)])] ''tfidf'' 5 = Inr []"
    by (simp add: rank_vsm_def doc_scores_def example_query_vector List.map_filter_simps py_slice_to_def)
  then show ?thesis by (simp only: w_def)
qed


lemma score_doc_underflow:
  assumes "float_tiny < w * w" and "w * w * (w * w) \<le> float_tiny" and "\<not> float_huge \<le> w * w"
  shows "score_doc [(t, w)] (d, [(t, w)]) = Inl ZeroDivisionError"
proof -
  have p: "0 < w * w" using assms(1) float_tiny_pos by linarith
  have "float_tiny < float_huge" by (simp add: float_tiny_def float_huge_def)
  with assms(2) have h: "\<not> float_huge \<le> w * w * (w * w)" by linarith
  have m: "fl_mul w w = w * w" using assms(1) p by (simp add: fl_mul_def fl_flush_def)
  have s: "py_sq w = Inr (w * w)"
    using assms(1,3) p by (simp add: py_sq_def fl_flush_def power2_eq_square)
  have "0 \<le> w * w * (w * w)" by simp
  with assms(2) have z: "fl_mul (w * w) (w * w) = 0" by (simp add: fl_mul_def fl_flush_def)
  have n: "w * w \<noteq> 0" using p by linarith
  show ?thesis
    unfolding score_doc_def prod.case using assms(3) h n
    by (simp add: dict_item_def m s z py_sqrt_def py_div_def)
qed

lemma example_underflow:
  "rank_vsm id {} ''x'' \<lparr>vsm_tf = [], vsm_df = [], vsm_idf = [(''x'', 1 / 2 ^ 300)], vsm_docs = []\<rparr>
     [(''d1'', [(''x'', 1 / 2 ^ 300)])] ''tfidf'' 5 = Inl ZeroDivisionError"
proof -
  define w :: real where "w = 1 / 2 ^ 300"
  have t: "float_tiny < w" "float_tiny < w * w" "w * w * (w * w) \<le> float_tiny"
    by (simp_all add: float_tiny_def w_def)
  have h: "\<not> float_huge \<le> w * w"
    by (simp add: float_huge_def w_def)
  have "0 < w" by (simp add: w_def)
  then have f: "fl_mul 1 w = w" using t(1) by (simp add: fl_mul_def fl_flush_def)
  have q: "query_vector id {} ''x'' \<lparr>vsm_tf = [], vsm_df = [], vsm_idf = [(''x'', w)], vsm_docs = []\<rparr> ''tfidf''
      = Inr [(''x'', w)]"
    by (simp add: query_vector_def example_preprocess example_counter q_weight_def dict_get_def f)
  have "score_doc [(''x'', w)] (''d1'', [(''x'', w)]) = Inl ZeroDivisionError"
    using t(2,3) h by (rule score_doc_underflow)
  then have "rank_vsm id {} ''x'' \<lparr>vsm_tf = [], vsm_df = [], vsm_idf = [(''x'', w)], vsm_docs = []\<rparr>
     [(''d1'', [(''x'', w)])] ''tfidf'' 5 = Inl ZeroDivisionError"
    by (simp add: rank_vsm_def doc_scores_def q)
  then show ?thesis by (simp only: w_def)
qed

subsection \<open>Weight models built by the code are inside the float range\<close>

lemma set_update_subset: "set (AList.update k v al) \<subseteq> insert (k, v) (set al)"
  by (induction al) auto

lemma build_tf_fold_entries:
  assumes "(doc, terms) \<in> set (fold (\<lambda>(doc_id, text) tf. AList.update doc_id (g text) tf) docs tf0)"
  shows "(doc, terms) \<in> set tf0 \<or> (\<exists>d toks. (d, toks) \<in> set docs \<and> terms = g toks)"
  using assms
proof (induction docs arbitrary: tf0)
  case Nil
  then show ?case by simp
next
  case (Cons p docs)
  obtain doc_id toks where p: "p = (doc_id, toks)" by (cases p)
  from Cons.prems have "(doc, terms) \<in> set (AList.update doc_id (g toks) tf0)
      \<or> (\<exists>d toks. (d, toks) \<in> set docs \<and> terms = g toks)"
    unfolding p by (auto dest: Cons.IH)
  then show ?case
    unfolding p using set_update_subset [of doc_id "g toks" tf0] by auto
qed

lemma build_tf_entries:
  "(doc, terms) \<in> set (build_tf stem sw docs) \<Longrightarrow>
     \<exists>d toks. (d, toks) \<in> set docs \<and> terms = counter (doc_tokens stem sw toks)"
  unfolding build_tf_def by (drule build_tf_fold_entries) auto

lemma counter_entry:
  assumes "(t, f) \<in> set (counter xs)"
  shows "1 \<le> f" and "f \<le> length xs"
proof -
  have "distinct (map fst (counter xs))" by (rule distinct_counter)
  with assms have "map_of (counter xs) t = Some f" by simp
  then have f: "f = count_list xs t" and t: "t \<in> set xs"
    by (auto simp: map_of_counter split: if_splits)
  from t have "0 < count_list xs t" by (rule count_list_pos)
  with f show "1 \<le> f" by simp
  from f show "f \<le> length xs" by (simp add: count_le_length)
qed

lemma length_counter: "length (counter xs) \<le> length xs"
proof -
  have d: "distinct (map fst (counter xs))" by (rule distinct_counter)
  have "set (map fst (counter xs)) \<subseteq> set xs"
  proof
    fix t assume "t \<in> set (map fst (counter xs))"
    then have "map_of (counter xs) t \<noteq> None"
      by (simp add: map_of_eq_None_iff)
    then show "t \<in> set xs" by (simp add: map_of_counter split: if_splits)
  qed
  then have "card (set (map fst (counter xs))) \<le> card (set xs)"
    by (intro card_mono) simp_all
  also have "\<dots> \<le> length xs" by (rule card_length)
  finally show ?thesis using distinct_card [OF d] by simp
qed

lemma spec_idf_le: "spec_idf N n \<le> real N + 1"
proof -
  have "(real N + 1) / (real n + 1) \<le> (real N + 1) / 1"
    by (intro divide_left_mono) simp_all
  then have "ln ((real N + 1) / (real n + 1)) \<le> ln (1 + real N)"
    by (intro ln_mono) simp_all
  also have "\<dots> \<le> real N" by (rule ln_add_one_self_le_self) simp
  finally show ?thesis by (simp add: spec_idf_def)
qed

text \<open>An entry of the idf table the code builds is 0 (term unknown) or between 1 and \<open>N + 1\<close>.\<close>

lemma built_idf_lookup:
  "dict_get (map (\<lambda>(t, n). (t, spec_idf (length docs) n)) (build_df stem sw docs)) t 0 =
     (if doc_freq stem sw docs t = 0 then 0 else spec_idf (length docs) (doc_freq stem sw docs t))"
  by (simp add: dict_get_def map_of_map map_of_build_df)

lemma built_idf_range:
  "dict_get (map (\<lambda>(t, n). (t, spec_idf (length docs) n)) (build_df stem sw docs)) t 0 = 0
   \<or> (1 \<le> dict_get (map (\<lambda>(t, n). (t, spec_idf (length docs) n)) (build_df stem sw docs)) t 0
      \<and> dict_get (map (\<lambda>(t, n). (t, spec_idf (length docs) n)) (build_df stem sw docs)) t 0
          \<le> real (length docs) + 1)"
  unfolding built_idf_lookup
  using spec_idf_pos [OF doc_freq_le [of stem sw docs t]]
    spec_idf_le [of "length docs" "doc_freq stem sw docs t"]
  by simp

lemma scaled_safe:
  assumes "1 \<le> a" and "a \<le> 2 ^ 64" and "v = 0 \<or> (1 \<le> v \<and> v \<le> N + 1)" and "N \<le> 2 ^ 64"
  shows "float_safe (a * v)" and "fl_mul a v = a * v"
proof -
  have s: "a * v = 0 \<or> (1 \<le> a * v \<and> a * v \<le> 2 ^ 64 * (2 ^ 64 + 1))"
  proof (cases "v = 0")
    case True
    then show ?thesis by simp
  next
    case False
    with assms(3,4) have v: "1 \<le> v" "v \<le> 2 ^ 64 + 1" by auto
    have "1 * 1 \<le> a * v" using assms(1) v(1) by (intro mult_mono) simp_all
    moreover have "a * v \<le> 2 ^ 64 * (2 ^ 64 + 1)"
      using assms(1,2) v by (intro mult_mono) simp_all
    ultimately show ?thesis by simp
  qed
  have "(2 ^ 64 * (2 ^ 64 + 1) :: real) \<le> 2 ^ 200" by simp
  moreover have "(1 / 2 ^ 200 :: real) \<le> 1" by simp
  ultimately show f: "float_safe (a * v)"
    using s unfolding float_safe_def by linarith
  have "float_tiny < 1" by (simp add: float_tiny_def)
  with s show "fl_mul a v = a * v"
    by (auto simp: fl_mul_def fl_flush_def)
qed

lemma tf_factor_range:
  assumes "1 \<le> f" and "real f \<le> 2 ^ 64"
  shows "1 \<le> (if sub then 1 + ln (real f) else real f)"
    and "(if sub then 1 + ln (real f) else real f) \<le> 2 ^ 64"
proof -
  have f: "1 \<le> real f" using assms(1) by simp
  then have "0 \<le> ln (real f)" by simp
  with f show "1 \<le> (if sub then 1 + ln (real f) else real f)" by simp
  have "ln (real f) \<le> real f - 1" using f by (intro ln_le_minus_one) simp
  with assms(2) show "(if sub then 1 + ln (real f) else real f) \<le> 2 ^ 64" by simp
qed


lemma built_weights_safe:
  assumes "small_collection stem sw docs" and "(d, toks) \<in> set docs"
  shows "safe_vector (map (\<lambda>(tm, freq).
      (tm, (if sub then 1 + ln (real freq) else real freq)
             * dict_get (map (\<lambda>(t, n). (t, spec_idf (length docs) n)) (build_df stem sw docs)) tm 0))
      (counter (doc_tokens stem sw toks)))"
proof -
  let ?tokens = "doc_tokens stem sw toks"
  have N: "real (length docs) \<le> 2 ^ 64"
    using assms(1) by (simp add: small_collection_def)
  have L: "real (length ?tokens) \<le> 2 ^ 64"
    using assms by (auto simp: small_collection_def list_all_iff)
  have "real (length (counter ?tokens)) \<le> real (length ?tokens)"
    using length_counter [of ?tokens] by simp
  with L have len: "real (length (counter ?tokens)) \<le> 2 ^ 64" by linarith
  have "float_safe ((if sub then 1 + ln (real f) else real f)
      * dict_get (map (\<lambda>(t, n). (t, spec_idf (length docs) n)) (build_df stem sw docs)) tm 0)"
    if "(tm, f) \<in> set (counter ?tokens)" for tm f
  proof -
    have f1: "1 \<le> f" and "f \<le> length ?tokens" using that by (rule counter_entry)+
    then have "real f \<le> real (length ?tokens)" by simp
    with L have f2: "real f \<le> 2 ^ 64" by linarith
    show ?thesis
      using tf_factor_range [OF f1 f2, of sub] built_idf_range [of docs stem sw tm] N
      by (rule scaled_safe(1))
  qed
  then show ?thesis
    using len by (auto simp: safe_vector_def list_all_iff)
qed

lemma built_standard_safe:
  assumes "small_collection stem sw docs" and "build_vsm stem sw docs = Inr vsm"
  shows "safe_model (weight_tfidf_standard vsm)"
proof -
  have v: "vsm = \<lparr>vsm_tf = build_tf stem sw docs, vsm_df = build_df stem sw docs,
          vsm_idf = map (\<lambda>(t, n). (t, spec_idf (length docs) n)) (build_df stem sw docs),
          vsm_docs = docs\<rparr>"
    using assms(2) by (simp add: build_vsm_eq)
  have "safe_vector (map (\<lambda>(tm, freq). (tm, real freq * dict_get (vsm_idf vsm) tm 0)) terms)"
    if "(doc, terms) \<in> set (build_tf stem sw docs)" for doc terms
  proof -
    from that obtain d toks where "(d, toks) \<in> set docs" and "terms = counter (doc_tokens stem sw toks)"
      using build_tf_entries by blast
    then show ?thesis
      using built_weights_safe [OF assms(1), of d toks False] by (simp add: v)
  qed
  then show ?thesis
    by (auto simp: safe_model_def weight_tfidf_standard_def list_all_iff v)
qed

lemma built_sublinear_safe:
  assumes "small_collection stem sw docs" and "build_vsm stem sw docs = Inr vsm"
  shows "\<exists>wm. weight_tfidf_sublinear vsm = Inr wm \<and> safe_model wm"
proof -
  have v: "vsm = \<lparr>vsm_tf = build_tf stem sw docs, vsm_df = build_df stem sw docs,
          vsm_idf = map (\<lambda>(t, n). (t, spec_idf (length docs) n)) (build_df stem sw docs),
          vsm_docs = docs\<rparr>"
    using assms(2) by (simp add: build_vsm_eq)
  let ?w = "\<lambda>(tm, freq). (tm, (1 + ln (real freq)) * dict_get (vsm_idf vsm) tm 0)"
  have "mapM (\<lambda>(doc, terms).
        bind (mapM (\<lambda>(tm, freq).
                bind (py_log (real freq)) (\<lambda>l. Inr (tm, (1 + l) * dict_get (vsm_idf vsm) tm 0))) terms)
          (\<lambda>ws. Inr (doc, ws))) (vsm_tf vsm)
      = Inr (map (\<lambda>(doc, terms). (doc, map ?w terms)) (vsm_tf vsm))"
  proof (rule mapM_Inr)
    fix x assume x: "x \<in> set (vsm_tf vsm)"
    obtain doc terms where dt: "x = (doc, terms)" by (cases x)
    with x obtain d toks where c: "terms = counter (doc_tokens stem sw toks)"
      using build_tf_entries [of doc terms stem sw docs] by (auto simp: v)
    have "mapM (\<lambda>(tm, freq).
                bind (py_log (real freq)) (\<lambda>l. Inr (tm, (1 + l) * dict_get (vsm_idf vsm) tm 0))) terms
        = Inr (map ?w terms)"
    proof (rule mapM_Inr)
      fix y assume y: "y \<in> set terms"
      obtain tm fr where tf: "y = (tm, fr)" by (cases y)
      with y c have "0 < fr" by (auto dest: counter_pos)
      then show "(case y of (tm, freq) \<Rightarrow>
                bind (py_log (real freq)) (\<lambda>l. Inr (tm, (1 + l) * dict_get (vsm_idf vsm) tm 0)))
          = Inr (?w y)"
        unfolding tf by (simp add: py_log_def)
    qed
    then show "(case x of (doc, terms) \<Rightarrow>
        bind (mapM (\<lambda>(tm, freq).
                bind (py_log (real freq)) (\<lambda>l. Inr (tm, (1 + l) * dict_get (vsm_idf vsm) tm 0))) terms)
          (\<lambda>ws. Inr (doc, ws))) = Inr (case x of (doc, terms) \<Rightarrow> (doc, map ?w terms))"
      unfolding dt by simp
  qed
  then have e: "weight_tfidf_sublinear vsm = Inr (map (\<lambda>(doc, terms). (doc, map ?w terms)) (vsm_tf vsm))"
    by (simp add: weight_tfidf_sublinear_def)
  have "safe_vector (map ?w terms)"
    if "(doc, terms) \<in> set (build_tf stem sw docs)" for doc terms
  proof -
    from that obtain d toks where "(d, toks) \<in> set docs" and "terms = counter (doc_tokens stem sw toks)"
      using build_tf_entries by blast
    then show ?thesis
      using built_weights_safe [OF assms(1), of d toks True] by (simp add: v)
  qed
  then have "safe_model (map (\<lambda>(doc, terms). (doc, map ?w terms)) (vsm_tf vsm))"
    by (auto simp: safe_model_def list_all_iff v)
  with e show ?thesis by blast
qed

lemma built_query_safe:
  assumes "small_collection stem sw docs" and "build_vsm stem sw docs = Inr vsm"
    and "real (length (preprocess stem sw query)) \<le> 2 ^ 64"
  shows "\<exists>q_vec. query_vector stem sw query vsm scheme = Inr q_vec \<and> safe_vector q_vec"
proof -
  have v: "vsm_idf vsm = map (\<lambda>(t, n). (t, spec_idf (length docs) n)) (build_df stem sw docs)"
    using assms(2) by (auto simp: build_vsm_eq)
  have N: "real (length docs) \<le> 2 ^ 64"
    using assms(1) by (simp add: small_collection_def)
  let ?q = "preprocess stem sw query"
  let ?a = "\<lambda>f. if scheme = ''sublinear'' then 1 + ln (real f) else real f"
  let ?g = "\<lambda>(t, f). (t, fl_mul (?a f) (dict_get (vsm_idf vsm) t 0))"
  have e: "query_vector stem sw query vsm scheme = Inr (map ?g (counter ?q))"
    by (rule query_vector_eq)
  have "real (length (counter ?q)) \<le> real (length ?q)"
    using length_counter [of ?q] by simp
  with assms(3) have len: "real (length (counter ?q)) \<le> 2 ^ 64" by linarith
  have "float_safe (fl_mul (?a f) (dict_get (vsm_idf vsm) t 0))"
    if "(t, f) \<in> set (counter ?q)" for t f
  proof -
    have f1: "1 \<le> f" and "f \<le> length ?q" using that by (rule counter_entry)+
    then have "real f \<le> real (length ?q)" by simp
    with assms(3) have f2: "real f \<le> 2 ^ 64" by linarith
    note r = tf_factor_range [OF f1 f2, of "scheme = ''sublinear''"]
    note i = built_idf_range [of docs stem sw t]
    show ?thesis
      unfolding v scaled_safe(2) [OF r i N] using r i N by (rule scaled_safe(1))
  qed
  then have "safe_vector (map ?g (counter ?q))"
    using len by (auto simp: safe_vector_def list_all_iff)
  with e show ?thesis by blast
qed

lemma weight_tfidf_sublinear_total:
  "\<exists>wm. weight_tfidf_sublinear \<lparr>vsm_tf = build_tf stem sw docs, vsm_df = df, vsm_idf = idf, vsm_docs = ds\<rparr> = Inr wm"
proof -
  let ?vsm = "\<lparr>vsm_tf = build_tf stem sw docs, vsm_df = df, vsm_idf = idf, vsm_docs = ds\<rparr>"
  let ?w = "\<lambda>(term, freq). (term, (1 + ln (real freq)) * dict_get idf term 0)"
  have "mapM (\<lambda>(doc, terms).
        bind (mapM (\<lambda>(term, freq).
                bind (py_log (real freq)) (\<lambda>l. Inr (term, (1 + l) * dict_get (vsm_idf ?vsm) term 0))) terms)
          (\<lambda>ws. Inr (doc, ws))) (vsm_tf ?vsm)
      = Inr (map (\<lambda>(doc, terms). (doc, map ?w terms)) (vsm_tf ?vsm))"
  proof (rule mapM_Inr)
    fix x assume x: "x \<in> set (vsm_tf ?vsm)"
    obtain doc terms where dt: "x = (doc, terms)" by (cases x)
    with x obtain toks where c: "terms = counter toks"
      using build_tf_entries [of doc terms stem sw docs] by auto
    have "mapM (\<lambda>(term, freq).
                bind (py_log (real freq)) (\<lambda>l. Inr (term, (1 + l) * dict_get (vsm_idf ?vsm) term 0))) terms
        = Inr (map ?w terms)"
    proof (rule mapM_Inr)
      fix y assume y: "y \<in> set terms"
      obtain tm fr where tf: "y = (tm, fr)" by (cases y)
      with y c have "0 < fr" by (auto dest: counter_pos)
      then show "(case y of (term, freq) \<Rightarrow>
                bind (py_log (real freq)) (\<lambda>l. Inr (term, (1 + l) * dict_get (vsm_idf ?vsm) term 0)))
          = Inr (?w y)"
        unfolding tf by (simp add: py_log_def)
    qed
    then show "(case x of (doc, terms) \<Rightarrow>
        bind (mapM (\<lambda>(term, freq).
                bind (py_log (real freq)) (\<lambda>l. Inr (term, (1 + l) * dict_get (vsm_idf ?vsm) term 0))) terms)
          (\<lambda>ws. Inr (doc, ws))) = Inr (case x of (doc, terms) \<Rightarrow> (doc, map ?w terms))"
      unfolding dt by simp
  qed
  then show ?thesis
    unfolding weight_tfidf_sublinear_def by blast
qed

lemma example_built:
  "build_vsm id {} [(''d1'', [''x'']), (''d2'', [''x''])]
     = Inr \<lparr>vsm_tf = [(''d1'', [(''x'', 1)]), (''d2'', [(''x'', 1)])], vsm_df = [(''x'', 2)],
            vsm_idf = [(''x'', 1)], vsm_docs = [(''d1'', [''x'']), (''d2'', [''x''])]\<rparr>"
  "weight_tfidf_standard \<lparr>vsm_tf = [(''d1'', [(''x'', 1)]), (''d2'', [(''x'', 1)])], vsm_df = [(''x'', 2)],
            vsm_idf = [(''x'', 1)], vsm_docs = [(''d1'', [''x'']), (''d2'', [''x''])]\<rparr>
     = [(''d1'', [(''x'', 1)]), (''d2'', [(''x'', 1)])]"
  "weight_tfidf_sublinear \<lparr>vsm_tf = [(''d1'', [(''x'', 1)]), (''d2'', [(''x'', 1)])], vsm_df = [(''x'', 2)],
            vsm_idf = [(''x'', 1)], vsm_docs = [(''d1'', [''x'']), (''d2'', [''x''])]\<rparr>
     = Inr [(''d1'', [(''x'', 1)]), (''d2'', [(''x'', 1)])]"
  "small_collection id {} [(''d1'', [''x'']), (''d2'', [''x''])]"
proof -
  have t: "build_tf id {} [(''d1'', [''x'']), (''d2'', [''x''])] = [(''d1'', [(''x'', 1)]), (''d2'', [(''x'', 1)])]"
    by code_simp
  have d: "build_df id {} [(''d1'', [''x'']), (''d2'', [''x''])] = [(''x'', 2)]"
    by code_simp
  have i: "spec_idf (Suc (Suc 0)) 2 = 1"
    by (simp add: spec_idf_def)
  show "build_vsm id {} [(''d1'', [''x'']), (''d2'', [''x''])]
     = Inr \<lparr>vsm_tf = [(''d1'', [(''x'', 1)]), (''d2'', [(''x'', 1)])], vsm_df = [(''x'', 2)],
            vsm_idf = [(''x'', 1)], vsm_docs = [(''d1'', [''x'']), (''d2'', [''x''])]\<rparr>"
    by (simp add: build_vsm_eq t d i)
  show "weight_tfidf_standard \<lparr>vsm_tf = [(''d1'', [(''x'', 1)]), (''d2'', [(''x'', 1)])], vsm_df = [(''x'', 2)],
            vsm_idf = [(''x'', 1)], vsm_docs = [(''d1'', [''x'']), (''d2'', [''x''])]\<rparr>
     = [(''d1'', [(''x'', 1)]), (''d2'', [(''x'', 1)])]"
    by (simp add: weight_tfidf_standard_def dict_get_def)
  show "weight_tfidf_sublinear \<lparr>vsm_tf = [(''d1'', [(''x'', 1)]), (''d2'', [(''x'', 1)])], vsm_df = [(''x'', 2)],
            vsm_idf = [(''x'', 1)], vsm_docs = [(''d1'', [''x'']), (''d2'', [''x''])]\<rparr>
     = Inr [(''d1'', [(''x'', 1)]), (''d2'', [(''x'', 1)])]"
    by (simp add: weight_tfidf_sublinear_def dict_get_def py_log_def)
  have "doc_tokens id {} [''x''] = [''x'']" by code_simp
  then show "small_collection id {} [(''d1'', [''x'']), (''d2'', [''x''])]"
    by (simp add: small_collection_def)
qed

subsection \<open>The metrics\<close>

lemma py_round2_0: "py_round2 0 = 0"
  by (simp add: py_round2_def)

lemma hits_empty_gold: "sum_list (map (\<lambda>doc. if doc \<in> {} then 1 else 0 :: nat) r) = 0"
  by (induction r) simp_all

lemma ap_loop_no_hits: "ap_loop (map (\<lambda>_. 0) r) i n ap = ap"
  by (induction r arbitrary: i) simp_all

lemma dcg_no_hits:
  "sum_list (map (\<lambda>(i, h). real h / log 2 (real (i + 1))) (zip is (map (\<lambda>_. 0) r))) = 0"
  by (induction r arbitrary: "is") (simp, case_tac "is", simp_all)

lemma evaluate_empty_gold:
  assumes "k \<noteq> 0"
  shows "evaluate_vsm results {} k = Inr (0, 0, 0, 0, 0)"
proof -
  have i: "[1 .. min 0 k] = []" by simp
  show ?thesis
    using assms
    by (simp add: evaluate_vsm_def py_div_def Let_def py_round2_0 ap_loop_no_hits dcg_no_hits i)
qed

lemma evaluate_k_zero: "evaluate_vsm results gold 0 = Inl ZeroDivisionError"
  by (simp add: evaluate_vsm_def py_div_def Let_def)

lemma precision_recall_empty: "precision_recall {} {} = (1, 1)"
  by (simp add: precision_recall_def)

lemma hits_count:
  "sum_list (map (\<lambda>doc. if doc \<in> gold then 1 else 0 :: nat) r) = length (filter (\<lambda>doc. doc \<in> gold) r)"
  by (induction r) simp_all

lemma precision_general:
  assumes "0 < k"
  shows "\<exists>recall f1 ap ndcg. evaluate_vsm results gold k =
     Inr (py_round2 (real (length (filter (\<lambda>doc. doc \<in> gold) (map fst (take (nat k) results)))) / of_int k),
          recall, f1, ap, ndcg)"
  using assms by (simp add: evaluate_vsm_def py_div_def Let_def hits_count py_slice_to_def)

lemma py_round2_examples: "py_round2 (2 / 5) = 2 / 5" "py_round2 1 = 1" "py_round2 (4 / 7) = 57 / 100"
  by (simp_all add: py_round2_def Let_def)

lemma evaluate_example_five:
  "\<exists>ap ndcg. evaluate_vsm [(''d1'', s1), (''d2'', s2), (''d3'', s3), (''d4'', s4), (''d5'', s5)] {''d1'', ''d3''} 5
      = Inr (2 / 5, 1, 57 / 100, ap, ndcg)"
  by (simp add: evaluate_vsm_def py_div_def Let_def py_slice_to_def py_round2_examples)

lemma evaluate_example_two:
  "\<exists>ap ndcg. evaluate_vsm [(''d1'', s1), (''d3'', s3)] {''d1'', ''d3''} 5
      = Inr (2 / 5, 1, 57 / 100, ap, ndcg)"
  by (simp add: evaluate_vsm_def py_div_def Let_def py_slice_to_def py_round2_examples)

subsection \<open>What the index holds, and what its universe misses\<close>

lemma map_of_index_fold:
  "distinct ts \<Longrightarrow>
   map_of (fold (\<lambda>t inv. AList.update t (insert doc (dict_get inv t {})) inv) ts inv0) t =
     (if t \<in> set ts then Some (insert doc (dict_get inv0 t {})) else map_of inv0 t)"
proof (induction ts arbitrary: inv0)
  case Nil
  show ?case by simp
next
  case (Cons x ts)
  then show ?case
    by (simp add: update_conv' dict_get_def)
qed

lemma map_of_index_doc:
  "map_of (index_doc doc toks ix) t =
     (if t \<in> set toks then Some (insert doc (dict_get ix t {})) else map_of ix t)"
  using map_of_index_fold [of "remdups toks" doc ix t] by (simp add: index_doc_def)

lemma distinct_index_doc: "distinct (map fst ix) \<Longrightarrow> distinct (map fst (index_doc doc toks ix))"
proof -
  have "distinct (map fst ix) \<Longrightarrow>
      distinct (map fst (fold (\<lambda>t inv. AList.update t (insert doc (dict_get inv t {})) inv) ts ix))" for ts
    by (induction ts arbitrary: ix) (simp_all add: distinct_update)
  then show "distinct (map fst ix) \<Longrightarrow> distinct (map fst (index_doc doc toks ix))"
    by (simp add: index_doc_def)
qed

lemma distinct_build_inverted_index: "distinct (map fst (build_inverted_index docs))"
proof -
  have "distinct (map fst ix) \<Longrightarrow>
      distinct (map fst (fold (\<lambda>(doc, toks) inv. index_doc doc toks inv) docs ix))" for ix
    by (induction docs arbitrary: ix) (auto simp: distinct_index_doc)
  then show ?thesis by (simp add: build_inverted_index_def)
qed

lemma spec_postings_Cons:
  "spec_postings ((doc, toks) # docs) t = (if t \<in> set toks then insert doc (spec_postings docs t) else spec_postings docs t)"
  by (auto simp: spec_postings_def)

lemma map_of_build_fold:
  "map_of (fold (\<lambda>(doc, toks) inv. index_doc doc toks inv) docs inv0) t =
     (if spec_postings docs t = {} then map_of inv0 t
      else Some (dict_get inv0 t {} \<union> spec_postings docs t))"
proof (induction docs arbitrary: inv0)
  case Nil
  show ?case by (simp add: spec_postings_def)
next
  case (Cons p docs)
  obtain doc toks where p: "p = (doc, toks)" by (cases p)
  show ?case
    unfolding p by (simp add: Cons.IH map_of_index_doc spec_postings_Cons dict_get_def)
qed

lemma map_of_build_inverted_index:
  "map_of (build_inverted_index docs) t =
     (if spec_postings docs t = {} then None else Some (spec_postings docs t))"
  by (simp add: build_inverted_index_def map_of_build_fold dict_get_def)

lemma all_docs_subset_nonempty:
  "all_docs (build_inverted_index docs) \<subseteq> {d. \<exists>toks. (d, toks) \<in> set docs \<and> toks \<noteq> []}"
proof
  fix d assume "d \<in> all_docs (build_inverted_index docs)"
  then obtain t S where ts: "(t, S) \<in> set (build_inverted_index docs)" and d: "d \<in> S"
    by (auto simp: all_docs_def split: if_splits)
  have "distinct (map fst (build_inverted_index docs))"
    by (rule distinct_build_inverted_index)
  with ts have "map_of (build_inverted_index docs) t = Some S" by simp
  then have "S = spec_postings docs t"
    by (simp add: map_of_build_inverted_index split: if_splits)
  with d show "d \<in> {d. \<exists>toks. (d, toks) \<in> set docs \<and> toks \<noteq> []}"
    by (auto simp: spec_postings_def)
qed

lemma all_docs_build_inverted_index:
  "all_docs (build_inverted_index docs) = {d. \<exists>toks. (d, toks) \<in> set docs \<and> toks \<noteq> []}"
proof
  show "all_docs (build_inverted_index docs) \<subseteq> {d. \<exists>toks. (d, toks) \<in> set docs \<and> toks \<noteq> []}"
    by (rule all_docs_subset_nonempty)
  show "{d. \<exists>toks. (d, toks) \<in> set docs \<and> toks \<noteq> []} \<subseteq> all_docs (build_inverted_index docs)"
  proof
    fix d assume "d \<in> {d. \<exists>toks. (d, toks) \<in> set docs \<and> toks \<noteq> []}"
    then obtain toks where dt: "(d, toks) \<in> set docs" and "toks \<noteq> []" by blast
    then obtain t where t: "t \<in> set toks" by (cases toks) auto
    with dt have m: "d \<in> spec_postings docs t" by (auto simp: spec_postings_def)
    then have "map_of (build_inverted_index docs) t = Some (spec_postings docs t)"
      by (auto simp: map_of_build_inverted_index)
    then have "(t, spec_postings docs t) \<in> set (build_inverted_index docs)"
      by (rule map_of_SomeD)
    then have "spec_postings docs t \<in> set (map snd (build_inverted_index docs))"
      by force
    with m show "d \<in> all_docs (build_inverted_index docs)"
      by (auto simp: all_docs_def)
  qed
qed

lemma empty_document_never_returned:
  assumes "\<And>toks. (e, toks) \<in> set docs \<Longrightarrow> toks = []"
    and "eval_boolean query (build_inverted_index docs) = Inr S"
  shows "e \<notin> S"
proof -
  have "S \<subseteq> all_docs (build_inverted_index docs)"
    using eval_boolean_subset [of query "build_inverted_index docs"] assms(2) by auto
  then show ?thesis
    using assms(1) by (auto simp: all_docs_build_inverted_index)
qed

subsection \<open>Bare terms are read as one token\<close>

lemma runs_all:
  "list_all p xs \<Longrightarrow> runs p acc xs = (if rev acc @ xs = [] then [] else [rev acc @ xs])"
  by (induction xs arbitrary: acc) simp_all

lemma chr_lower_not_upper: "\<not> is_upper (chr_lower c)"
proof (cases "is_upper c")
  case True
  then have "of_char (char_of (of_char c + (32 :: nat))) = (of_char c + 32 :: nat)"
    by (simp add: is_upper_def Let_def)
  with True show ?thesis
    by (simp add: chr_lower_def is_upper_def Let_def)
next
  case False
  then show ?thesis by (simp add: chr_lower_def)
qed

lemma chr_lower_term_char: "is_term_char c \<Longrightarrow> is_term_char (chr_lower c)"
proof (cases "is_upper c")
  case True
  then have "of_char (char_of (of_char c + (32 :: nat))) = (of_char c + 32 :: nat)"
    by (simp add: is_upper_def Let_def)
  with True have "is_lower (chr_lower c)"
    by (simp add: chr_lower_def is_upper_def is_lower_def Let_def)
  then show ?thesis by (simp add: is_term_char_def is_word_def)
next
  case False
  assume "is_term_char c"
  with False show ?thesis by (simp add: chr_lower_def)
qed

lemma term_char_not_word: "is_term_char c \<Longrightarrow> \<not> is_word c \<Longrightarrow> c = CHR ''-''"
  by (simp add: is_term_char_def)

lemma kw_split_None:
  assumes "list_all is_term_char r" and "r \<noteq> kw" and "take (Suc (length kw)) r \<noteq> kw @ ''-''"
  shows "kw_split kw r = None"
proof (cases "take (length kw) r = kw")
  case False
  then show ?thesis by (simp add: kw_split_def)
next
  case True
  show ?thesis
  proof (cases "drop (length kw) r")
    case Nil
    then have "take (length kw) r = r" by simp
    with True assms(2) show ?thesis by simp
  next
    case (Cons c rest)
    then have "c \<in> set (drop (length kw) r)" by simp
    then have "c \<in> set r" by (rule in_set_dropD)
    with assms(1) have tc: "is_term_char c" by (simp add: list_all_iff)
    have "r = take (length kw) r @ drop (length kw) r" by simp
    then have r: "r = kw @ c # rest" using True Cons by simp
    have "take (Suc (length kw)) (kw @ c # rest) = kw @ [c]" by simp
    with r assms(3) have "c \<noteq> CHR ''-''" by auto
    with tc have "is_word c" using term_char_not_word by blast
    with Cons show ?thesis by (simp add: kw_split_def)
  qed
qed

lemma bare_term_tokenize:
  assumes "is_bare_term s"
  shows "tokenize s = [str_lower s]" and "\<not> is_op (str_lower s)" and "is_term s"
    and "postings idx s = dict_get idx (str_lower s) {}"
proof -
  let ?r = "str_lower s"
  from assms have ne: "?r \<noteq> []" and tc0: "list_all is_term_char s" and k: "\<not> keyword_led ?r"
    by (simp_all add: is_bare_term_def str_lower_def)
  have tc: "list_all is_term_char ?r"
    using tc0 by (simp add: str_lower_def list_all_iff chr_lower_term_char)
  have r: "runs is_term_char [] ?r = [?r]"
    using ne by (simp add: runs_all [OF tc])
  from k have k1: "?r \<noteq> ''not''" "take (Suc (length ''not'')) ?r \<noteq> ''not'' @ ''-''"
    and k2: "?r \<noteq> ''and''" "take (Suc (length ''and'')) ?r \<noteq> ''and'' @ ''-''"
    and k3: "?r \<noteq> ''or''" "take (Suc (length ''or'')) ?r \<noteq> ''or'' @ ''-''"
    by (simp_all add: keyword_led_def eval_nat_numeral)
  have e: "emit ?r = [?r]"
    by (simp add: emit_def kw_split_None [OF tc k1] kw_split_None [OF tc k2] kw_split_None [OF tc k3])
  show t: "tokenize s = [?r]"
    using k1(1) k2(1) k3(1) by (simp add: tokenize_alt re_findall_def r e token_map_def)
  show o: "\<not> is_op ?r"
  proof
    assume "is_op ?r"
    then have "?r = ''AND'' \<or> ?r = ''OR'' \<or> ?r = ''NOT''" by (simp add: is_op_def)
    then have "\<exists>c \<in> set ?r. is_upper c"
      by (auto simp: is_upper_def)
    then show False by (auto simp: str_lower_def chr_lower_not_upper)
  qed
  from t o show "is_term s" by (simp add: is_term_def)
  from t show "postings idx s = dict_get idx ?r {}" by (simp add: postings_def)
qed

lemma bare_term_examples:
  "is_bare_term ''Bandung'' \<and> is_bare_term ''x-or'' \<and> is_bare_term ''north'' \<and> \<not> is_bare_term ''or-x''
   \<and> \<not> is_bare_term ''NOT'' \<and> \<not> is_bare_term ''x y''"
  by code_simp

section \<open>The claims about Boolean retrieval\<close>

text \<open>
  Claim C1: NOT complements against a universe that holds every document of the
  collection, documents without tokens included. The evaluator derives the universe
  from the posting sets of the index, so a document without tokens is in no result:
  over the collection \<open>a.txt = [x]\<close>, \<open>b.txt = [y]\<close>, \<open>e.txt = []\<close> the query
  \<open>NOT x\<close> returns \<open>b.txt\<close> alone, although \<open>e.txt\<close> does not contain \<open>x\<close>.
\<close>

theorem not_query_misses_empty_document:
  "eval_boolean ''NOT x''
     (build_inverted_index [(''a.txt'', [''x'']), (''b.txt'', [''y'']), (''e.txt'', [])])
   = Inr {''b.txt''}"
  by code_simp

text \<open>
  Claim C5: the Boolean evaluator returns a set for every query string and never
  raises; so does the postfix evaluation on every token sequence and every stack.
  The empty query returns the empty set, and AND or OR met with fewer than two
  operands on the value stack leaves the stack as it is.
\<close>

theorem eval_boolean_never_raises:
  "(\<exists>S. eval_boolean query inverted_index = Inr S)
   \<and> (\<exists>st'. eval_postfix inverted_index output st = Inr st')
   \<and> eval_boolean [] inverted_index = Inr {}
   \<and> (length st < 2 \<longrightarrow>
        eval_tok inverted_index ''AND'' st = Inr st \<and> eval_tok inverted_index ''OR'' st = Inr st)"
proof -
  obtain s where "eval_postfix inverted_index (to_postfix (tokenize query) [] []) [] = Inr s"
    using eval_postfix_total by blast
  then have a: "\<exists>S. eval_boolean query inverted_index = Inr S"
    by (simp add: eval_boolean_def)
  have b: "\<exists>st'. eval_postfix inverted_index output st = Inr st'"
    by (rule eval_postfix_total)
  have "tokenize [] = []" by code_simp
  then have c: "eval_boolean [] inverted_index = Inr {}"
    by (simp add: eval_boolean_def stack_top_def)
  have d: "length st < 2 \<longrightarrow>
        eval_tok inverted_index ''AND'' st = Inr st \<and> eval_tok inverted_index ''OR'' st = Inr st"
    by (simp add: eval_tok_def)
  from a b c d show ?thesis by blast
qed

theorem eval_boolean_never_raises_witness:
  "eval_boolean ''AND OR NOT'' [(''x'', {''a.txt''}), (''y'', {''b.txt''})] = Inr {}
   \<and> eval_postfix [(''x'', {''a.txt''}), (''y'', {''b.txt''})] [''OR'', ''x'', ''AND''] [] = Inr [{''a.txt''}]
   \<and> length [{''a.txt''}] < 2
   \<and> eval_tok [(''x'', {''a.txt''}), (''y'', {''b.txt''})] ''AND'' [{''a.txt''}] = Inr [{''a.txt''}]
   \<and> eval_tok [(''x'', {''a.txt''}), (''y'', {''b.txt''})] ''OR'' [{''a.txt''}] = Inr [{''a.txt''}]"
proof -
  let ?idx = "[(''x'', {''a.txt''}), (''y'', {''b.txt''})]"
  have e: "eval_boolean ''AND OR NOT'' ?idx = Inr {}" by code_simp
  have p: "eval_postfix ?idx [''OR'', ''x'', ''AND''] [] = Inr [{''a.txt''}]" by code_simp
  have l: "length [{''a.txt''}] < 2" by simp
  from eval_boolean_never_raises [of "''AND OR NOT''" ?idx "[''OR'', ''x'', ''AND'']" "[{''a.txt''}]"] l
  have "eval_tok ?idx ''AND'' [{''a.txt''}] = Inr [{''a.txt''}]
      \<and> eval_tok ?idx ''OR'' [{''a.txt''}] = Inr [{''a.txt''}]"
    by blast
  with e p l show ?thesis by blast
qed



text \<open>
  Claim C9, for terms that the tokenizer reads as one token: for every index and all
  non-empty strings \<open>a\<close> and \<open>b\<close> of letters, digits, underscores and hyphens that,
  in lower case, are none of \<open>not\<close>, \<open>and\<close>, \<open>or\<close> and begin with none of \<open>not-\<close>,
  \<open>and-\<close>, \<open>or-\<close>, the queries \<open>a AND b\<close> and \<open>b AND a\<close> return the same set, the
  intersection of the posting sets of the two terms in lower case, and \<open>a OR b\<close> and
  \<open>b OR a\<close> return the same set, their union.
\<close>

theorem and_or_commute:
  assumes "is_bare_term a" and "is_bare_term b"
  shows "eval_boolean (a @ '' AND '' @ b) inverted_index = eval_boolean (b @ '' AND '' @ a) inverted_index
     \<and> eval_boolean (a @ '' AND '' @ b) inverted_index
         = Inr (dict_get inverted_index (str_lower a) {} \<inter> dict_get inverted_index (str_lower b) {})
     \<and> eval_boolean (a @ '' OR '' @ b) inverted_index = eval_boolean (b @ '' OR '' @ a) inverted_index
     \<and> eval_boolean (a @ '' OR '' @ b) inverted_index
         = Inr (dict_get inverted_index (str_lower a) {} \<union> dict_get inverted_index (str_lower b) {})"
proof -
  note ta = bare_term_tokenize(3,4) [OF assms(1)]
  note tb = bare_term_tokenize(3,4) [OF assms(2)]
  have ab: "eval_boolean (a @ '' AND '' @ b) inverted_index
      = Inr (postings inverted_index a \<inter> postings inverted_index b)"
    using ta(1) tb(1) by (rule eval_boolean_and)
  have ba: "eval_boolean (b @ '' AND '' @ a) inverted_index
      = Inr (postings inverted_index b \<inter> postings inverted_index a)"
    using tb(1) ta(1) by (rule eval_boolean_and)
  have ab': "eval_boolean (a @ '' OR '' @ b) inverted_index
      = Inr (postings inverted_index a \<union> postings inverted_index b)"
    using ta(1) tb(1) by (rule eval_boolean_or)
  have ba': "eval_boolean (b @ '' OR '' @ a) inverted_index
      = Inr (postings inverted_index b \<union> postings inverted_index a)"
    using tb(1) ta(1) by (rule eval_boolean_or)
  show ?thesis
    unfolding ab ba ab' ba' ta(2) tb(2) by (simp add: Int_commute Un_commute)
qed

theorem and_or_commute_witness:
  "is_bare_term ''Bandung'' \<and> is_bare_term ''x-or''
   \<and> eval_boolean ''Bandung AND x-or'' [(''bandung'', {''a.txt'', ''b.txt''}), (''x-or'', {''b.txt'', ''c.txt''})]
       = eval_boolean ''x-or AND Bandung'' [(''bandung'', {''a.txt'', ''b.txt''}), (''x-or'', {''b.txt'', ''c.txt''})]
   \<and> eval_boolean ''Bandung AND x-or'' [(''bandung'', {''a.txt'', ''b.txt''}), (''x-or'', {''b.txt'', ''c.txt''})]
       = Inr {''b.txt''}
   \<and> eval_boolean ''Bandung OR x-or'' [(''bandung'', {''a.txt'', ''b.txt''}), (''x-or'', {''b.txt'', ''c.txt''})]
       = eval_boolean ''x-or OR Bandung'' [(''bandung'', {''a.txt'', ''b.txt''}), (''x-or'', {''b.txt'', ''c.txt''})]
   \<and> eval_boolean ''Bandung OR x-or'' [(''bandung'', {''a.txt'', ''b.txt''}), (''x-or'', {''b.txt'', ''c.txt''})]
       = Inr {''a.txt'', ''b.txt'', ''c.txt''}"
proof -
  let ?idx = "[(''bandung'', {''a.txt'', ''b.txt''}), (''x-or'', {''b.txt'', ''c.txt''})]"
  have a: "is_bare_term ''Bandung''" by code_simp
  have b: "is_bare_term ''x-or''" by code_simp
  have e: "eval_boolean ''Bandung AND x-or'' ?idx = Inr {''b.txt''}" by code_simp
  have f: "eval_boolean ''Bandung OR x-or'' ?idx = Inr {''a.txt'', ''b.txt'', ''c.txt''}" by code_simp
  from and_or_commute [OF a b, of ?idx]
  have c: "eval_boolean ''Bandung AND x-or'' ?idx = eval_boolean ''x-or AND Bandung'' ?idx"
    and d: "eval_boolean ''Bandung OR x-or'' ?idx = eval_boolean ''x-or OR Bandung'' ?idx"
    by simp_all
  from a b c e d f show ?thesis by blast
qed

text \<open>
  Against claim C9 as stated, for all terms: the tokenizer reads the term \<open>or-x\<close> as
  the operator \<open>OR\<close> followed by the term \<open>-x\<close>. Over the index \<open>x \<mapsto> {d1}\<close>,
  \<open>y \<mapsto> {d2}\<close> the query \<open>or-x AND y\<close> returns the empty set and \<open>y AND or-x\<close>
  returns \<open>{d2}\<close>.
\<close>

theorem and_keyword_led_term_counterexample:
  "eval_boolean ''or-x AND y'' [(''x'', {''d1''}), (''y'', {''d2''})] = Inr {}
   \<and> eval_boolean ''y AND or-x'' [(''x'', {''d1''}), (''y'', {''d2''})] = Inr {''d2''}
   \<and> tokenize ''or-x AND y'' = [''OR'', ''-x'', ''AND'', ''y'']
   \<and> tokenize ''y AND or-x'' = [''y'', ''AND'', ''OR'', ''-x'']"
  by code_simp

text \<open>
  Claim C10: for every query string and every index, the evaluator returns a subset
  of the union of the posting sets of the index.
\<close>

theorem eval_boolean_within_universe:
  "\<exists>S. eval_boolean query inverted_index = Inr S \<and> S \<subseteq> all_docs inverted_index"
  by (rule eval_boolean_subset)

theorem eval_boolean_within_universe_witness:
  "eval_boolean ''x OR NOT'' [(''x'', {''a.txt''}), (''y'', {''b.txt''})] = Inr {''b.txt''}
   \<and> {''b.txt''} \<subseteq> all_docs [(''x'', {''a.txt''}), (''y'', {''b.txt''})]"
proof -
  let ?idx = "[(''x'', {''a.txt''}), (''y'', {''b.txt''})]"
  have e: "eval_boolean ''x OR NOT'' ?idx = Inr {''b.txt''}" by code_simp
  obtain S where "eval_boolean ''x OR NOT'' ?idx = Inr S" and "S \<subseteq> all_docs ?idx"
    using eval_boolean_within_universe [of "''x OR NOT''" ?idx] by blast
  with e show ?thesis by simp
qed

section \<open>The claims about the vector space model and the metrics\<close>

text \<open>
  Claim C2, as the code has it: neither an empty collection nor \<open>top_k \<le> 0\<close> is
  reported as an error. Index building and weight-model building return a result
  for every collection: the empty collection gives the empty index and a model
  with empty tables, and both weight models are built. For a query vector and a
  weight model inside the float range (every weight 0 or between \<open>2^-200\<close> and
  \<open>2^200\<close>, at most \<open>2^64\<close> entries a vector) the ranker returns the slice \<open>[:top_k]\<close>
  of the sorted positive scores for every \<open>top_k\<close>, which is the empty list for
  \<open>top_k = 0\<close> and the list without its last \<open>-top_k\<close> entries for \<open>top_k < 0\<close>. The
  weight models the code builds from a collection of at most \<open>2^64\<close> documents of at
  most \<open>2^64\<close> tokens each are inside that range, so ranking a query of at most \<open>2^64\<close>
  tokens over them returns for every \<open>top_k\<close>, under either scheme.
\<close>

theorem degenerate_inputs_return:
  "build_inverted_index ([] :: (string \<times> string list) list) = []
   \<and> build_vsm stem stopwords [] = Inr \<lparr>vsm_tf = [], vsm_df = [], vsm_idf = [], vsm_docs = []\<rparr>
   \<and> (\<exists>vsm' wm'. build_vsm stem stopwords docs = Inr vsm' \<and> weight_tfidf_sublinear vsm' = Inr wm')
   \<and> (query_vector stem stopwords query vsm scheme = Inr q_vec \<and> safe_vector q_vec \<and> safe_model wm \<longrightarrow>
        (\<exists>ds. doc_scores stem stopwords query vsm wm scheme = Inr ds
           \<and> rank_vsm stem stopwords query vsm wm scheme top_k
               = Inr (py_slice_to (sort_key (\<lambda>x. - snd x) ds) top_k)
           \<and> rank_vsm stem stopwords query vsm wm scheme 0 = Inr []
           \<and> (top_k < 0 \<longrightarrow> rank_vsm stem stopwords query vsm wm scheme top_k
                 = Inr (take (length ds - nat (- top_k)) (sort_key (\<lambda>x. - snd x) ds)))))
   \<and> (small_collection stem stopwords docs \<and> real (length (preprocess stem stopwords query)) \<le> 2 ^ 64 \<longrightarrow>
        (\<exists>vsm' wm_sub r_std r_sub.
             build_vsm stem stopwords docs = Inr vsm'
           \<and> weight_tfidf_sublinear vsm' = Inr wm_sub
           \<and> safe_model (weight_tfidf_standard vsm') \<and> safe_model wm_sub
           \<and> rank_vsm stem stopwords query vsm' (weight_tfidf_standard vsm') ''tfidf'' top_k = Inr r_std
           \<and> rank_vsm stem stopwords query vsm' wm_sub ''sublinear'' top_k = Inr r_sub))"
proof -
  have a: "build_inverted_index ([] :: (string \<times> string list) list) = []"
    by (simp add: build_inverted_index_def)
  have b: "build_vsm stem stopwords [] = Inr \<lparr>vsm_tf = [], vsm_df = [], vsm_idf = [], vsm_docs = []\<rparr>"
    by (simp add: build_vsm_eq build_tf_def build_df_def)
  have c: "\<exists>vsm' wm'. build_vsm stem stopwords docs = Inr vsm' \<and> weight_tfidf_sublinear vsm' = Inr wm'"
    using weight_tfidf_sublinear_total by (simp add: build_vsm_eq)
  have d: "\<exists>ds. doc_scores stem stopwords query vsm wm scheme = Inr ds
           \<and> rank_vsm stem stopwords query vsm wm scheme top_k
               = Inr (py_slice_to (sort_key (\<lambda>x. - snd x) ds) top_k)
           \<and> rank_vsm stem stopwords query vsm wm scheme 0 = Inr []
           \<and> (top_k < 0 \<longrightarrow> rank_vsm stem stopwords query vsm wm scheme top_k
                 = Inr (take (length ds - nat (- top_k)) (sort_key (\<lambda>x. - snd x) ds)))"
    if q: "query_vector stem stopwords query vsm scheme = Inr q_vec" and sq: "safe_vector q_vec"
      and sm: "safe_model wm"
  proof -
    define ds where "ds = List.map_filter (positive_score q_vec) wm"
    have s: "doc_scores stem stopwords query vsm wm scheme = Inr ds"
      unfolding ds_def using q sq sm by (rule doc_scores_safe)
    have r: "\<And>k. rank_vsm stem stopwords query vsm wm scheme k
             = Inr (py_slice_to (sort_key (\<lambda>x. - snd x) ds) k)"
      by (simp add: rank_vsm_def s)
    have z: "rank_vsm stem stopwords query vsm wm scheme 0 = Inr []"
      by (simp add: r py_slice_to_def)
    have n: "top_k < 0 \<longrightarrow> rank_vsm stem stopwords query vsm wm scheme top_k
               = Inr (take (length ds - nat (- top_k)) (sort_key (\<lambda>x. - snd x) ds))"
      by (simp add: r py_slice_to_def)
    from s r z n show ?thesis by blast
  qed
  have e: "\<exists>vsm' wm_sub r_std r_sub.
             build_vsm stem stopwords docs = Inr vsm'
           \<and> weight_tfidf_sublinear vsm' = Inr wm_sub
           \<and> safe_model (weight_tfidf_standard vsm') \<and> safe_model wm_sub
           \<and> rank_vsm stem stopwords query vsm' (weight_tfidf_standard vsm') ''tfidf'' top_k = Inr r_std
           \<and> rank_vsm stem stopwords query vsm' wm_sub ''sublinear'' top_k = Inr r_sub"
    if sc: "small_collection stem stopwords docs"
      and ql: "real (length (preprocess stem stopwords query)) \<le> 2 ^ 64"
  proof -
    obtain vsm' where v: "build_vsm stem stopwords docs = Inr vsm'"
      by (simp add: build_vsm_eq)
    have std: "safe_model (weight_tfidf_standard vsm')"
      using sc v by (rule built_standard_safe)
    obtain wm_sub where w: "weight_tfidf_sublinear vsm' = Inr wm_sub" and sub: "safe_model wm_sub"
      using built_sublinear_safe [OF sc v] by blast
    obtain q1 where q1: "query_vector stem stopwords query vsm' ''tfidf'' = Inr q1" "safe_vector q1"
      using built_query_safe [OF sc v ql] by blast
    obtain q2 where q2: "query_vector stem stopwords query vsm' ''sublinear'' = Inr q2" "safe_vector q2"
      using built_query_safe [OF sc v ql] by blast
    have r1: "\<exists>r. rank_vsm stem stopwords query vsm' (weight_tfidf_standard vsm') ''tfidf'' top_k = Inr r"
      using rank_vsm_safe [OF q1 std] by blast
    have r2: "\<exists>r. rank_vsm stem stopwords query vsm' wm_sub ''sublinear'' top_k = Inr r"
      using rank_vsm_safe [OF q2 sub] by blast
    from v w std sub r1 r2 show ?thesis by blast
  qed
  from a b c d e show ?thesis by blast
qed

theorem degenerate_inputs_return_witness:
  "query_vector id {} ''x'' \<lparr>vsm_tf = [], vsm_df = [], vsm_idf = [(''x'', 1)], vsm_docs = []\<rparr> ''tfidf''
     = Inr [(''x'', 1)]
   \<and> safe_vector [(''x'', 1)]
   \<and> safe_model [(''d1'', [(''x'', 1), (''z'', 1), (''w'', 1), (''k'', 1)]), (''d2'', [(''x'', 1)]), (''d3'', [(''z'', 1)])]
   \<and> (- 2 :: int) < 0
   \<and> rank_vsm id {} ''x'' \<lparr>vsm_tf = [], vsm_df = [], vsm_idf = [(''x'', 1)], vsm_docs = []\<rparr>
       [(''d1'', [(''x'', 1), (''z'', 1), (''w'', 1), (''k'', 1)]), (''d2'', [(''x'', 1)]), (''d3'', [(''z'', 1)])]
       ''tfidf'' (- 2)
     = Inr (take (2 - nat 2) (sort_key (\<lambda>x. - snd x) [(''d1'', 1 / 2), (''d2'', 1 :: real)]))
   \<and> small_collection id {} [(''d1'', [''x'']), (''d2'', [''x''])]
   \<and> real (length (preprocess id {} ''x'')) \<le> 2 ^ 64
   \<and> build_vsm id {} [(''d1'', [''x'']), (''d2'', [''x''])]
     = Inr \<lparr>vsm_tf = [(''d1'', [(''x'', 1)]), (''d2'', [(''x'', 1)])], vsm_df = [(''x'', 2)],
            vsm_idf = [(''x'', 1)], vsm_docs = [(''d1'', [''x'']), (''d2'', [''x''])]\<rparr>
   \<and> rank_vsm id {} ''x''
       \<lparr>vsm_tf = [(''d1'', [(''x'', 1)]), (''d2'', [(''x'', 1)])], vsm_df = [(''x'', 2)],
        vsm_idf = [(''x'', 1)], vsm_docs = [(''d1'', [''x'']), (''d2'', [''x''])]\<rparr>
       [(''d1'', [(''x'', 1)]), (''d2'', [(''x'', 1)])] ''sublinear'' (- 2)
     = Inr []"
proof -
  let ?vsm = "\<lparr>vsm_tf = [], vsm_df = [], vsm_idf = [(''x'', 1)], vsm_docs = []\<rparr>"
  let ?wm = "[(''d1'', [(''x'', 1), (''z'', 1), (''w'', 1), (''k'', 1)]), (''d2'', [(''x'', 1)]), (''d3'', [(''z'', 1)])]"
  let ?docs = "[(''d1'', [''x'']), (''d2'', [''x''])]"
  let ?built = "\<lparr>vsm_tf = [(''d1'', [(''x'', 1)]), (''d2'', [(''x'', 1)])], vsm_df = [(''x'', 2)],
        vsm_idf = [(''x'', 1)], vsm_docs = [(''d1'', [''x'']), (''d2'', [''x''])]\<rparr>"
  have q: "query_vector id {} ''x'' ?vsm ''tfidf'' = Inr [(''x'', 1)]"
    by (rule example_query_vector) simp
  have sq: "safe_vector [(''x'', 1)]" by (rule example_safe(1))
  have sm: "safe_model ?wm" by (rule example_safe(3))
  have sc: "small_collection id {} ?docs" by (rule example_built(4))
  have ql: "real (length (preprocess id {} ''x'')) \<le> 2 ^ 64" by (simp add: example_preprocess)
  note t = degenerate_inputs_return [of id "{}" ?docs "''x''" ?vsm "''tfidf''" "[(''x'', 1)]" ?wm "- 2"]
  from t q sq sm obtain ds where d: "doc_scores id {} ''x'' ?vsm ?wm ''tfidf'' = Inr ds"
    and n: "(- 2 :: int) < 0 \<longrightarrow> rank_vsm id {} ''x'' ?vsm ?wm ''tfidf'' (- 2)
               = Inr (take (length ds - nat (- (- 2))) (sort_key (\<lambda>x. - snd x) ds))"
    by blast
  have "doc_scores id {} ''x'' ?vsm ?wm ''tfidf'' = Inr [(''d1'', 1 / 2), (''d2'', 1)]"
    by (rule example_doc_scores_three) simp
  with d have ds: "ds = [(''d1'', 1 / 2), (''d2'', 1)]" by simp
  from n have neg: "rank_vsm id {} ''x'' ?vsm ?wm ''tfidf'' (- 2)
     = Inr (take (2 - nat 2) (sort_key (\<lambda>x. - snd x) [(''d1'', 1 / 2), (''d2'', 1 :: real)]))"
    unfolding ds by simp
  from t sc ql obtain vsm' wm_sub r_sub where v: "build_vsm id {} ?docs = Inr vsm'"
    and w: "weight_tfidf_sublinear vsm' = Inr wm_sub"
    and r: "rank_vsm id {} ''x'' vsm' wm_sub ''sublinear'' (- 2) = Inr r_sub"
    by blast
  from v have v': "vsm' = ?built" using example_built(1) by simp
  from w have w': "wm_sub = [(''d1'', [(''x'', 1)]), (''d2'', [(''x'', 1)])]"
    unfolding v' using example_built(3) by simp
  have "doc_scores id {} ''x'' ?built [(''d1'', [(''x'', 1)]), (''d2'', [(''x'', 1)])] ''sublinear''
      = Inr [(''d1'', 1), (''d2'', 1)]"
    by (rule example_doc_scores) simp
  then have "rank_vsm id {} ''x'' ?built [(''d1'', [(''x'', 1)]), (''d2'', [(''x'', 1)])] ''sublinear'' (- 2)
      = Inr []"
    by (simp add: rank_vsm_def py_slice_to_def)
  with r have two: "r_sub = []"
    unfolding v' w' by simp
  from r have built: "rank_vsm id {} ''x'' ?built [(''d1'', [(''x'', 1)]), (''d2'', [(''x'', 1)])] ''sublinear'' (- 2)
      = Inr []"
    unfolding v' w' two .
  have m: "(- 2 :: int) < 0" by simp
  from q sq sm m neg sc ql example_built(1) built show ?thesis by blast
qed

text \<open>
  Against claim C2 as stated: the empty collection and \<open>top_k = 0\<close> give results,
  not errors; and an input that is neither of the two, a weight of \<open>2^600\<close> whose
  square is beyond the floats, makes the ranker raise \<open>OverflowError\<close>.
\<close>

theorem empty_collection_and_top_k_counterexample:
  "build_inverted_index ([] :: (string \<times> string list) list) = []
   \<and> build_vsm id {} [] = Inr \<lparr>vsm_tf = [], vsm_df = [], vsm_idf = [], vsm_docs = []\<rparr>
   \<and> rank_vsm id {} ''x'' \<lparr>vsm_tf = [], vsm_df = [], vsm_idf = [(''x'', 1)], vsm_docs = []\<rparr>
       [(''d1'', [(''x'', 1)]), (''d2'', [(''x'', 1)])] ''tfidf'' 0 = Inr []
   \<and> rank_vsm id {} ''x'' \<lparr>vsm_tf = [], vsm_df = [], vsm_idf = [(''x'', 1)], vsm_docs = []\<rparr>
       [(''d1'', [(''x'', 2 ^ 600)])] ''tfidf'' 5 = Inl OverflowError"
proof -
  have "doc_scores id {} ''x'' \<lparr>vsm_tf = [], vsm_df = [], vsm_idf = [(''x'', 1)], vsm_docs = []\<rparr>
       [(''d1'', [(''x'', 1)]), (''d2'', [(''x'', 1)])] ''tfidf'' = Inr [(''d1'', 1), (''d2'', 1)]"
    by (rule example_doc_scores) simp
  then have "rank_vsm id {} ''x'' \<lparr>vsm_tf = [], vsm_df = [], vsm_idf = [(''x'', 1)], vsm_docs = []\<rparr>
       [(''d1'', [(''x'', 1)]), (''d2'', [(''x'', 1)])] ''tfidf'' 0 = Inr []"
    by (simp add: rank_vsm_def py_slice_to_def)
  then show ?thesis
    using example_overflow by (simp add: build_inverted_index_def build_vsm_eq build_tf_def build_df_def)
qed




text \<open>
  Claim C4: for a collection of \<open>N\<close> documents with distinct names, a document
  \<open>d\<close> of it and a term \<open>t\<close> with \<open>df(t) \<ge> 1\<close>, the model is built, its idf table
  holds \<open>log((N+1)/(df(t)+1)) + 1\<close> for \<open>t\<close>, and the standard weight of \<open>t\<close> in \<open>d\<close>
  is \<open>tf(t,d) * idf(t)\<close>: stored under \<open>t\<close> when \<open>t\<close> occurs in \<open>d\<close>, absent (read as
  0) when it does not. The idf is strictly positive whenever \<open>df \<le> N\<close>, and equals 1
  for \<open>N = 4\<close> and \<open>df = 4\<close>.
\<close>

theorem tfidf_standard_weight:
  assumes "distinct (map fst docs)" and "(d, toks) \<in> set docs"
    and "1 \<le> doc_freq stem stopwords docs t"
  shows "\<exists>vsm ws. build_vsm stem stopwords docs = Inr vsm
     \<and> doc_freq stem stopwords docs t \<le> length docs
     \<and> map_of (vsm_df vsm) t = Some (doc_freq stem stopwords docs t)
     \<and> map_of (vsm_idf vsm) t = Some (spec_idf (length docs) (doc_freq stem stopwords docs t))
     \<and> map_of (weight_tfidf_standard vsm) d = Some ws
     \<and> map_of ws t =
          (if t \<in> set (doc_tokens stem stopwords toks)
           then Some (real (count_list (doc_tokens stem stopwords toks) t)
                       * spec_idf (length docs) (doc_freq stem stopwords docs t))
           else None)
     \<and> dict_get ws t 0 = real (count_list (doc_tokens stem stopwords toks) t)
                            * spec_idf (length docs) (doc_freq stem stopwords docs t)
     \<and> 0 < spec_idf (length docs) (doc_freq stem stopwords docs t)
     \<and> (n \<le> N \<longrightarrow> 0 < spec_idf N n)
     \<and> spec_idf 4 4 = 1"
proof -
  let ?n = "doc_freq stem stopwords docs t"
  let ?tokens = "doc_tokens stem stopwords toks"
  let ?idf = "map (\<lambda>(t, n). (t, spec_idf (length docs) n)) (build_df stem stopwords docs)"
  let ?vsm = "\<lparr>vsm_tf = build_tf stem stopwords docs, vsm_df = build_df stem stopwords docs,
          vsm_idf = ?idf, vsm_docs = docs\<rparr>"
  let ?ws = "map (\<lambda>(term, freq). (term, real freq * dict_get ?idf term 0)) (counter ?tokens)"
  have pos: "0 < ?n" using assms(3) by simp
  have le: "?n \<le> length docs" by (rule doc_freq_le)
  have df: "map_of (vsm_df ?vsm) t = Some ?n"
    using pos by (simp add: map_of_build_df)
  have idf0: "map_of ?idf t = Some (spec_idf (length docs) ?n)"
    using pos by (simp add: map_of_map map_of_build_df)
  then have idf: "map_of (vsm_idf ?vsm) t = Some (spec_idf (length docs) ?n)"
    by simp
  have w: "map_of (weight_tfidf_standard ?vsm) d = Some ?ws"
    using assms(1,2) by (simp add: map_of_weight_standard map_of_build_tf)
  have g: "dict_get ?idf t 0 = spec_idf (length docs) ?n"
    unfolding dict_get_def idf0 by simp
  have "map_of ?ws t = map_option (\<lambda>freq. real freq * dict_get ?idf t 0) (map_of (counter ?tokens) t)"
    by (rule map_of_map_key)
  then have wt: "map_of ?ws t =
      (if t \<in> set ?tokens then Some (real (count_list ?tokens t) * spec_idf (length docs) ?n) else None)"
    unfolding g by (simp add: map_of_counter)
  have wg: "dict_get ?ws t 0 = real (count_list ?tokens t) * spec_idf (length docs) ?n"
    using dict_get_lookup [OF wt, of 0] by simp
  have p: "0 < spec_idf (length docs) ?n"
    using spec_idf_pos [OF le] by simp
  have gen: "n \<le> N \<longrightarrow> 0 < spec_idf N n"
    using spec_idf_pos [of n N] by auto
  have one: "spec_idf 4 4 = 1"
    by (simp add: spec_idf_def)
  show ?thesis
    using build_vsm_eq [of stem stopwords docs] le df idf w wt wg p gen one by blast
qed

theorem tfidf_standard_weight_witness:
  "distinct (map fst [(''d1'', [''x'']), (''d2'', [''x'', ''w'']), (''d3'', [''x'', ''w'', ''x'']), (''d4'', [''z'', ''x''])])
   \<and> (''d3'', [''x'', ''w'', ''x'']) \<in> set [(''d1'', [''x'']), (''d2'', [''x'', ''w'']), (''d3'', [''x'', ''w'', ''x'']), (''d4'', [''z'', ''x''])]
   \<and> 1 \<le> doc_freq id {} [(''d1'', [''x'']), (''d2'', [''x'', ''w'']), (''d3'', [''x'', ''w'', ''x'']), (''d4'', [''z'', ''x''])] ''x''
   \<and> (\<exists>vsm ws. build_vsm id {} [(''d1'', [''x'']), (''d2'', [''x'', ''w'']), (''d3'', [''x'', ''w'', ''x'']), (''d4'', [''z'', ''x''])] = Inr vsm
        \<and> map_of (vsm_df vsm) ''x'' = Some 4
        \<and> map_of (vsm_idf vsm) ''x'' = Some 1
        \<and> map_of (weight_tfidf_standard vsm) ''d3'' = Some ws
        \<and> map_of ws ''x'' = Some 2)"
proof -
  let ?docs = "[(''d1'', [''x'']), (''d2'', [''x'', ''w'']), (''d3'', [''x'', ''w'', ''x'']), (''d4'', [''z'', ''x''])]"
  have h1: "distinct (map fst ?docs)" by simp
  have h2: "(''d3'', [''x'', ''w'', ''x'']) \<in> set ?docs" by simp
  have tk: "doc_tokens id {} [''x'', ''w'', ''x''] = [''x'', ''w'', ''x'']" by code_simp
  have n: "doc_freq id {} ?docs ''x'' = 4" by code_simp
  then have h3: "1 \<le> doc_freq id {} ?docs ''x''" by simp
  have l: "length ?docs = 4" by simp
  have c: "count_list (doc_tokens id {} [''x'', ''w'', ''x'']) ''x'' = 2" unfolding tk by simp
  have m: "''x'' \<in> set (doc_tokens id {} [''x'', ''w'', ''x''])" unfolding tk by simp
  from tfidf_standard_weight [OF h1 h2 h3, of 4 4]
  obtain vsm ws where "build_vsm id {} ?docs = Inr vsm"
    and "map_of (vsm_df vsm) ''x'' = Some 4"
    and "map_of (vsm_idf vsm) ''x'' = Some 1"
    and "map_of (weight_tfidf_standard vsm) ''d3'' = Some ws"
    and "map_of ws ''x'' = Some 2"
    unfolding n l c using m by auto
  with h1 h2 h3 show ?thesis by blast
qed

text \<open>
  Claim C7, for \<open>k \<noteq> 0\<close>: \<open>precision_recall\<close> returns precision 1 and recall 1 when
  the result set and the gold set are both empty, while \<open>evaluate_vsm\<close> returns 0
  for recall, MAP and nDCG (and for precision and F1) whenever the gold set is empty.
\<close>

theorem empty_gold_conventions:
  "precision_recall ({} :: 'd set) {} = (1, 1)
   \<and> (k \<noteq> 0 \<longrightarrow> evaluate_vsm (results :: ('d \<times> real) list) {} k = Inr (0, 0, 0, 0, 0))"
  by (simp add: precision_recall_empty evaluate_empty_gold)

theorem empty_gold_conventions_witness:
  "(5 :: int) \<noteq> 0 \<and> evaluate_vsm [(''d1'', 1), (''d2'', 1 / 2)] {} 5 = Inr (0, 0, 0, 0, 0)"
  using empty_gold_conventions [of 5 "[(''d1'', 1), (''d2'', 1 / 2)]"] by simp

text \<open>
  Against claim C7 as stated: with an empty gold set and \<open>k = 0\<close> the evaluator
  raises on the division by \<open>k\<close> and returns nothing.
\<close>

theorem empty_gold_k_zero_counterexample:
  "evaluate_vsm [(''d1'', 1 :: real)] {} 0 = Inl ZeroDivisionError"
  by (rule evaluate_k_zero)

text \<open>
  Claim C8: for \<open>k > 0\<close>, the precision \<open>evaluate_vsm\<close> returns is the number of
  gold documents among the first \<open>k\<close> results divided by \<open>k\<close>, rounded to two
  places. For gold \<open>{d1, d3}\<close> and the results \<open>d1, ..., d5\<close> with \<open>k = 5\<close> it returns
  precision 0.40, recall 1.00 and F1 0.57, the rounding of 4/7, which is within
  0.001 of 0.571. With only the results \<open>d1, d3\<close> and \<open>k = 5\<close> the precision is
  still 0.40: the two missing places count as not relevant.
\<close>

theorem precision_divides_by_k:
  "(0 < k \<longrightarrow> (\<exists>recall f1 ap ndcg. evaluate_vsm results gold k =
       Inr (py_round2 (real (length (filter (\<lambda>doc. doc \<in> gold) (map fst (take (nat k) results)))) / of_int k),
            recall, f1, ap, ndcg)))
   \<and> (\<exists>ap ndcg. evaluate_vsm [(''d1'', s1), (''d2'', s2), (''d3'', s3), (''d4'', s4), (''d5'', s5)]
         {''d1'', ''d3''} 5 = Inr (2 / 5, 1, py_round2 (4 / 7), ap, ndcg))
   \<and> py_round2 (4 / 7) = 57 / 100 \<and> \<bar>4 / 7 - 571 / 1000 :: real\<bar> < 1 / 1000
   \<and> (\<exists>ap ndcg. evaluate_vsm [(''d1'', s1), (''d3'', s3)] {''d1'', ''d3''} 5
         = Inr (2 / 5, 1, 57 / 100, ap, ndcg))"
proof -
  have a: "0 < k \<longrightarrow> (\<exists>recall f1 ap ndcg. evaluate_vsm results gold k =
       Inr (py_round2 (real (length (filter (\<lambda>doc. doc \<in> gold) (map fst (take (nat k) results)))) / of_int k),
            recall, f1, ap, ndcg))"
    using precision_general by blast
  have b: "\<exists>ap ndcg. evaluate_vsm [(''d1'', s1), (''d2'', s2), (''d3'', s3), (''d4'', s4), (''d5'', s5)]
         {''d1'', ''d3''} 5 = Inr (2 / 5, 1, py_round2 (4 / 7), ap, ndcg)"
    using evaluate_example_five [of s1 s2 s3 s4 s5] by (simp add: py_round2_examples)
  have c: "py_round2 (4 / 7) = 57 / 100" by (rule py_round2_examples)
  have d: "\<bar>4 / 7 - 571 / 1000 :: real\<bar> < 1 / 1000" by simp
  have e: "\<exists>ap ndcg. evaluate_vsm [(''d1'', s1), (''d3'', s3)] {''d1'', ''d3''} 5
         = Inr (2 / 5, 1, 57 / 100, ap, ndcg)"
    by (rule evaluate_example_two)
  from a b c d e show ?thesis by blast
qed

theorem precision_divides_by_k_witness:
  "(0 :: int) < 2
   \<and> (\<exists>recall f1 ap ndcg. evaluate_vsm [(''d1'', 1), (''d2'', 1 / 2), (''d3'', 1 / 4)] {''d3''} 2
         = Inr (py_round2 (real (length (filter (\<lambda>doc. doc \<in> {''d3''}) [''d1'', ''d2''])) / 2), recall, f1, ap, ndcg))
   \<and> py_round2 (real (length (filter (\<lambda>doc. doc \<in> {''d3''}) [''d1'', ''d2''])) / 2) = 0"
proof -
  have k: "(0 :: int) < 2" by simp
  have z: "py_round2 (real (length (filter (\<lambda>doc. doc \<in> {''d3''}) [''d1'', ''d2''])) / 2) = 0"
    by (simp add: py_round2_0)
  from precision_divides_by_k [of 2 "[(''d1'', 1), (''d2'', 1 / 2), (''d3'', 1 / 4)]" "{''d3''}"] k
  have "\<exists>recall f1 ap ndcg. evaluate_vsm [(''d1'', 1), (''d2'', 1 / 2), (''d3'', 1 / 4)] {''d3''} 2
         = Inr (py_round2 (real (length (filter (\<lambda>doc. doc \<in> {''d3''}) [''d1'', ''d2''])) / 2), recall, f1, ap, ndcg)"
    by simp
  with k z show ?thesis by blast
qed

end
